theory Spec2Isabelle
  imports Main "HOL-Library.AList"
begin

section \<open>Exceptions\<close>

text \<open>
  The Python exceptions raised by \<^verbatim>\<open>elfi/graph.py\<close> and \<^verbatim>\<open>elfi/core.py\<close>, with
  their messages. \<open>RecursionError\<close> is what Python raises when the recursion over parents or
  children does not bottom out within the interpreter's recursion limit; the recursive
  functions below take that limit as their first argument.
\<close>

datatype exn =
  ValueError string | RecursionError | IndexError string | KeyError string | AttributeError string

section \<open>Nodes of the graph (\<^verbatim>\<open>elfi/graph.py\<close>)\<close>

type_synonym nid = nat

text \<open>
  \<^verbatim>\<open>class Node\<close>: the name and the two adjacency lists. Node objects are compared by
  identity (the class defines no \<^verbatim>\<open>__eq__\<close>), so a reference is an address \<open>nid\<close> and the
  objects live in a heap.
\<close>

record node =
  name :: string
  parents :: "nid list"
  children :: "nid list"

type_synonym 'a heap = "nid \<Rightarrow> 'a node_scheme"

text \<open>\<^verbatim>\<open>if m not in acc: acc.append(m)\<close>, for every \<open>m\<close> of a list.\<close>

definition append_new :: "nid list \<Rightarrow> nid list \<Rightarrow> nid list" where
  "append_new ms acc = fold (\<lambda>m a. if m \<in> set a then a else a @ [m]) ms acc"

text \<open>
  \<^verbatim>\<open>Node.descendants\<close> and \<^verbatim>\<open>Node.ancestors\<close>: a copy of the children (parents), extended by
  the descendants (ancestors) of each of them, without duplicates. The properties recurse
  with no guard against cycles.
\<close>

fun descendants :: "nat \<Rightarrow> 'a heap \<Rightarrow> nid \<Rightarrow> exn + nid list" where
  "descendants 0 h self = Inl RecursionError"
| "descendants (Suc fuel) h self =
     fold (\<lambda>n acc. case acc of Inl e \<Rightarrow> Inl e
                   | Inr ds \<Rightarrow> (case descendants fuel h n of Inl e \<Rightarrow> Inl e
                                | Inr ms \<Rightarrow> Inr (append_new ms ds)))
          (children (h self)) (Inr (children (h self)))"


text \<open>Python's \<^verbatim>\<open>list.insert(index, x)\<close>, with its clipping of the index.\<close>

definition list_insert :: "'a list \<Rightarrow> int \<Rightarrow> 'a \<Rightarrow> 'a list" where
  "list_insert xs i x =
     (let len = int (length xs);
          j = (if i < 0 then max 0 (i + len) else min i len)
      in take (nat j) xs @ x # drop (nat j) xs)"

text \<open>
  \<^verbatim>\<open>Node._add_child(node, index)\<close>. The result is the exception raised, if any, and the heap
  as the call leaves it.
\<close>

definition add_child ::
  "'a heap \<Rightarrow> nid \<Rightarrow> nid \<Rightarrow> int option \<Rightarrow> exn option \<times> 'a heap" where
  "add_child h self nd index =
     (if nd \<notin> set (children (h self)) then
        (case index of
           None \<Rightarrow>
             (None, h(self := (h self)\<lparr>children :=
                list_insert (children (h self)) (int (length (children (h self)))) nd\<rparr>))
         | Some i \<Rightarrow>
             if i < 0 \<or> i > int (length (children (h self)))
             then (Some (ValueError ''Index out of bounds.''), h)
             else (None, h(self := (h self)\<lparr>children :=
                list_insert (children (h self)) i nd\<rparr>)))
      else (None, h))"

text \<open>
  \<^verbatim>\<open>Node.add_parent(node, index, index_child)\<close>, for \<open>node\<close> a Node or None. The parent is
  inserted into \<open>self.parents\<close> before \<open>node._add_child\<close> runs.
\<close>

definition add_parent ::
  "nat \<Rightarrow> 'a heap \<Rightarrow> nid \<Rightarrow> nid option \<Rightarrow> int option \<Rightarrow> int option
     \<Rightarrow> exn option \<times> 'a heap" where
  "add_parent fuel h self node index index_child =
     (case node of
        None \<Rightarrow> (None, h)
      | Some nd \<Rightarrow>
          (case descendants fuel h self of
             Inl e \<Rightarrow> (Some e, h)
           | Inr ds \<Rightarrow>
               if nd \<in> set ds then (Some (ValueError ''Cannot have cyclic graph structure.''), h)
               else if nd \<notin> set (parents (h self)) then
                 (case index of
                    None \<Rightarrow>
                      add_child (h(self := (h self)\<lparr>parents :=
                          list_insert (parents (h self)) (int (length (parents (h self)))) nd\<rparr>))
                        nd self index_child
                  | Some i \<Rightarrow>
                      if i < 0 \<or> i > int (length (parents (h self)))
                      then (Some (ValueError ''Index out of bounds.''), h)
                      else add_child (h(self := (h self)\<lparr>parents :=
                          list_insert (parents (h self)) i nd\<rparr>)) nd self index_child)
               else add_child h nd self index_child))"

section \<open>The graph's register of names (\<^verbatim>\<open>Graph.add_node\<close>)\<close>

text \<open>
  \<^verbatim>\<open>Graph.nodes\<close> is a dict from names to nodes; the association list keeps Python's
  insertion order (\<open>AList.update\<close> replaces in place or appends).
\<close>

type_synonym registry = "(string \<times> nid) list"

record graph =
  gname :: string
  gnodes :: registry

text \<open>\<^verbatim>\<open>while name_old in self.nodes: name_old += "_old"\<close>\<close>

function old_name :: "registry \<Rightarrow> string \<Rightarrow> string" where
  "old_name d nm = (if nm \<in> fst ` set d then old_name d (nm @ ''_old'') else nm)"
  by pat_completeness auto
termination
proof (relation "measure (\<lambda>(d, nm). Suc (Max (insert 0 (length ` fst ` set d))) - length nm)")
  show "wf (measure (\<lambda>(d, nm). Suc (Max (insert 0 (length ` fst ` set d))) - length nm))"
    by simp
next
  fix d :: registry and nm :: string
  assume "nm \<in> fst ` set d"
  then have "length nm \<in> insert 0 (length ` fst ` set d)" by blast
  then have "length nm \<le> Max (insert 0 (length ` fst ` set d))" by (intro Max_ge) auto
  then show "((d, nm @ ''_old''), (d, nm))
      \<in> measure (\<lambda>(d, nm). Suc (Max (insert 0 (length ` fst ` set d))) - length nm)"
    by simp
qed

declare old_name.simps [simp del]

text \<open>\<^verbatim>\<open>Node.rename\<close>\<close>

definition rename :: "'a heap \<Rightarrow> nid \<Rightarrow> string \<Rightarrow> 'a heap" where
  "rename h self nm = h(self := (h self)\<lparr>name := nm\<rparr>)"

text \<open>
  \<^verbatim>\<open>Graph.add_node(node)\<close>: the graph and the heap after the call. The occupant \<open>x\<close> is
  \<^verbatim>\<open>self.nodes[node.name]\<close>, which the source reads twice with no write to that key in
  between.
\<close>

definition add_node ::
  "'g graph_scheme \<Rightarrow> 'a heap \<Rightarrow> nid \<Rightarrow> 'g graph_scheme \<times> 'a heap" where
  "add_node g h nd =
     (if nd \<notin> snd ` set (gnodes g) then
        (case map_of (gnodes g) (name (h nd)) of
           Some x \<Rightarrow>
             (let name_old = old_name (gnodes g) (name (h nd));
                  h1 = rename h x name_old;
                  d1 = AList.update name_old x (gnodes g)
              in (g\<lparr>gnodes := AList.update (name (h1 nd)) nd d1\<rparr>, h1))
         | None \<Rightarrow> (g\<lparr>gnodes := AList.update (name (h nd)) nd (gnodes g)\<rparr>, h))
      else (g, h))"

section \<open>Slices, keys and arrays\<close>

text \<open>\<^verbatim>\<open>slice(start, stop)\<close>: the half-open index range from \<open>start\<close> to \<open>stop\<close>.\<close>

record slice =
  start :: int
  stop :: int

text \<open>
  Modelled from the spec: \<^verbatim>\<open>slen\<close> of \<^verbatim>\<open>elfi/utils.py\<close>, which is not among the sources. A slice
  is a half-open index range; its length is the number of indices from \<open>start\<close> up to
  \<open>stop\<close>.
\<close>

definition slen :: "slice \<Rightarrow> int" where
  "slen sl = stop sl - start sl"

text \<open>
  Modelled from the spec: \<^verbatim>\<open>slice_intersect(sl1, sl2, offset)\<close> is the sub-range of \<open>sl1\<close>
  that overlaps \<open>sl2\<close>, counted from \<open>offset\<close>, and an empty range when they do not overlap.
\<close>

definition slice_intersect :: "slice \<Rightarrow> slice \<Rightarrow> int \<Rightarrow> slice" where
  "slice_intersect sl1 sl2 offset =
     (let a = max (start sl2) (start sl1) - offset;
          b = min (stop sl2) (stop sl1) - offset
      in if b - a \<le> 0 then \<lparr>start = 0, stop = 0\<rparr> else \<lparr>start = a, stop = b\<rparr>)"

type_synonym key_id = "string \<times> string \<times> nat"
type_synonym key = "key_id \<times> slice"

text \<open>
  Modelled from the spec: \<^verbatim>\<open>make_key_id\<close> of \<^verbatim>\<open>elfi/utils.py\<close>, the identity derived from the name
  of the owning graph, the name of the node and the version.
\<close>

definition make_key_id :: "string \<Rightarrow> string \<Rightarrow> nat \<Rightarrow> key_id" where
  "make_key_id task_name node_name version = (task_name, node_name, version)"

text \<open>
  Modelled from the spec: \<^verbatim>\<open>make_key\<close> of \<^verbatim>\<open>elfi/utils.py\<close>, the key derived from the identity of
  the node and the range.
\<close>

definition make_key :: "key_id \<Rightarrow> slice \<Rightarrow> key" where
  "make_key ident sl = (ident, sl)"

text \<open>
  Modelled from the spec: \<^verbatim>\<open>get_key_slice\<close> of \<^verbatim>\<open>elfi/utils.py\<close>, the range a key was made from.
\<close>

definition get_key_slice :: "key \<Rightarrow> slice" where
  "get_key_slice k = snd k"

text \<open>
  A numpy array: its shape and its elements in row-major order. An element is a number or,
  for the string branch of \<^verbatim>\<open>normalize_data\<close>, a Python string.
\<close>

datatype elem = Num int | Str string

record ndarray =
  shape :: "nat list"
  flat :: "elem list"

text \<open>
  User-originated data: a scalar, or what \<^verbatim>\<open>np.atleast_1d\<close> makes of a list, a tuple or an
  array.
\<close>

datatype pydata = PyScalar elem | PyArray ndarray

definition atleast_1d :: "pydata \<Rightarrow> ndarray" where
  "atleast_1d data =
     (case data of
        PyScalar x \<Rightarrow> \<lparr>shape = [1], flat = [x]\<rparr>
      | PyArray a \<Rightarrow> (if shape a = [] then a\<lparr>shape := [1]\<rparr> else a))"

text \<open>\<^verbatim>\<open>data[None, :]\<close>, followed by \<^verbatim>\<open>np.vstack((data, ) * n)\<close> when \<open>n > 1\<close>.\<close>

definition replicate_rows :: "ndarray \<Rightarrow> int \<Rightarrow> ndarray" where
  "replicate_rows a n =
     (if n > 1 then \<lparr>shape = nat n # shape a, flat = concat (replicate (nat n) (flat a))\<rparr>
      else \<lparr>shape = 1 # shape a, flat = flat a\<rparr>)"

text \<open>\<^verbatim>\<open>normalize_data(data, n)\<close>\<close>

definition normalize_data :: "pydata \<Rightarrow> int \<Rightarrow> ndarray" where
  "normalize_data data n =
     (let a = (case data of
                 PyScalar (Str s) \<Rightarrow> \<lparr>shape = [1, 1], flat = [Str s]\<rparr>
               | _ \<Rightarrow> atleast_1d data)
      in if length (shape a) = 1 then
           (if int (hd (shape a)) = n then a\<lparr>shape := shape a @ [1]\<rparr>
            else replicate_rows a n)
         else
           (if int (hd (shape a)) \<noteq> n then replicate_rows a n else a))"

text \<open>\<^verbatim>\<open>normalize_data_dict(dict, n)\<close>; a dict is an association list.\<close>

definition normalize_data_dict ::
  "(string \<times> pydata) list option \<Rightarrow> int \<Rightarrow> (string \<times> ndarray) list option" where
  "normalize_data_dict dict n =
     (case dict of
        None \<Rightarrow> None
      | Some d \<Rightarrow> Some (map (\<lambda>(k, v). (k, normalize_data v n)) d))"

text \<open>
  \<^verbatim>\<open>a[i:j]\<close> on the first axis, with Python's treatment of negative and too large bounds.
  A zero-dimensional array cannot be indexed.
\<close>

definition clip_index :: "int \<Rightarrow> nat \<Rightarrow> nat" where
  "clip_index i len = (if i < 0 then nat (max 0 (i + int len)) else min (nat i) len)"

definition getitem :: "ndarray \<Rightarrow> slice \<Rightarrow> exn + ndarray" where
  "getitem a sl =
     (case shape a of
        [] \<Rightarrow> Inl (IndexError ''too many indices for array'')
      | r # rest \<Rightarrow>
          (let i = clip_index (start sl) r;
               j = clip_index (stop sl) r;
               w = prod_list rest
           in Inr \<lparr>shape = (j - i) # rest, flat = take ((j - i) * w) (drop (i * w) (flat a))\<rparr>))"

text \<open>
  \<^verbatim>\<open>np.vstack\<close> of a non-empty tuple of arrays: each is made at least two-dimensional, all
  must agree on every axis but the first, and the rows are concatenated.
\<close>

definition atleast_2d :: "ndarray \<Rightarrow> ndarray" where
  "atleast_2d a =
     (case shape a of
        [] \<Rightarrow> a\<lparr>shape := [1, 1]\<rparr>
      | [m] \<Rightarrow> a\<lparr>shape := [1, m]\<rparr>
      | _ \<Rightarrow> a)"

definition vstack :: "ndarray list \<Rightarrow> exn + ndarray" where
  "vstack arrs =
     (case map atleast_2d arrs of
        [] \<Rightarrow> Inl (ValueError ''need at least one array to concatenate'')
      | b # bs \<Rightarrow>
          if list_all (\<lambda>c. tl (shape c) = tl (shape b)) bs
          then Inr \<lparr>shape = sum_list (map (\<lambda>c. hd (shape c)) (b # bs)) # tl (shape b),
                    flat = concat (map flat (b # bs))\<rparr>
          else Inl (ValueError ''all the input array dimensions except for the concatenation axis must match exactly''))"

section \<open>Operations and deferred computations (\<^verbatim>\<open>elfi/core.py\<close>)\<close>

text \<open>What a user-supplied function returns: a numpy array or some other object.\<close>

datatype pyobj = Array ndarray | NotArray

text \<open>
  The \<^verbatim>\<open>operation\<close> of a node, by the class that builds it: the constant of \<^verbatim>\<open>Constant\<close>;
  the user's simulator, called with the parents' data, \<open>n_sim\<close> and the random state (the
  master seed and the index of the sub-stream); the user's summary, called with the
  parents' data; the user's discrepancy, called with the parents' data and their observed
  values.
\<close>

datatype opkind =
    Constant ndarray
  | Simulator "ndarray list \<Rightarrow> int \<Rightarrow> nat \<times> nat \<Rightarrow> pyobj"
  | Summary "ndarray list \<Rightarrow> pyobj"
  | Discrepancy "ndarray list \<Rightarrow> ndarray list \<Rightarrow> pyobj"

text \<open>
  A dask \<^verbatim>\<open>Delayed\<close> object: a description of a computation, not its value.
  \<^item> \<open>DZeros\<close> is \<^verbatim>\<open>delayed(np.zeros(shape=(0,0)))\<close>;
  \<^item> \<open>DLiteral v\<close> is \<^verbatim>\<open>delayed(output)\<close> for the output dict whose \<^verbatim>\<open>"data"\<close> is the literal \<open>v\<close>;
  \<^item> \<open>DOperation op data n index random_state observed\<close> is \<^verbatim>\<open>delayed(self.operation)(dinput)\<close>
    for the input dict with these entries (\<open>data\<close> the parents' delayed slices);
  \<^item> \<open>DGetData d\<close> is \<^verbatim>\<open>get_named_item(d, 'data')\<close>;
  \<^item> \<open>DGetItem d sl\<close> is \<^verbatim>\<open>delayed(operator.getitem)(d, sl)\<close>;
  \<^item> \<open>DVStack ds\<close> is \<^verbatim>\<open>delayed(np.vstack)(tuple(ds))\<close>;
  \<^item> \<open>DStoreRead i sl\<close> is \<^verbatim>\<open>store.read_data(i, sl)\<close>.
  The dask key names of derived objects only name them for the executor and are left out;
  the key of a chunk is kept beside it in the cache.
\<close>

datatype dobj =
    DZeros
  | DLiteral ndarray
  | DOperation opkind "dobj list" int int "(nat \<times> nat) option" "ndarray list option"
  | DGetData dobj
  | DGetItem dobj slice
  | DVStack "dobj list"
  | DStoreRead key_id slice

type_synonym delayed_output = "key \<times> dobj"

text \<open>The first exception of a list of results, or all their values.\<close>

fun collect :: "(exn + 'a) list \<Rightarrow> exn + 'a list" where
  "collect [] = Inr []"
| "collect (Inl e # rs) = Inl e"
| "collect (Inr x # rs) = (case collect rs of Inl e \<Rightarrow> Inl e | Inr xs \<Rightarrow> Inr (x # xs))"

text \<open>
  \<^verbatim>\<open>simulator_operation\<close>, \<^verbatim>\<open>summary_operation\<close> and \<^verbatim>\<open>discrepancy_operation\<close>, and the lambda
  of \<^verbatim>\<open>Constant\<close>, applied to a realised input dict; the result is the \<^verbatim>\<open>"data"\<close> of the
  output dict. The first two read \<^verbatim>\<open>data.shape[0]\<close>, which is an IndexError on the empty
  shape of a zero-dimensional array.
\<close>

definition simulator_operation ::
  "(ndarray list \<Rightarrow> int \<Rightarrow> nat \<times> nat \<Rightarrow> pyobj) \<Rightarrow> ndarray list \<Rightarrow> int \<Rightarrow> nat \<times> nat \<Rightarrow> exn + ndarray" where
  "simulator_operation simulator data n_sim prng =
     (case simulator data n_sim prng of
        NotArray \<Rightarrow> Inl (ValueError ''Simulation operation output type incorrect.'')
      | Array a \<Rightarrow>
          (case shape a of
             [] \<Rightarrow> Inl (IndexError ''tuple index out of range'')
           | r # rest \<Rightarrow>
               if int r \<noteq> n_sim \<or> length (shape a) < 2
               then Inl (ValueError ''Simulation operation output format incorrect.'')
               else Inr a))"

definition summary_operation ::
  "(ndarray list \<Rightarrow> pyobj) \<Rightarrow> ndarray list \<Rightarrow> int \<Rightarrow> exn + ndarray" where
  "summary_operation f data vec_len =
     (case f data of
        NotArray \<Rightarrow> Inl (ValueError ''Summary operation output type incorrect.'')
      | Array a \<Rightarrow>
          (case shape a of
             [] \<Rightarrow> Inl (IndexError ''tuple index out of range'')
           | r # rest \<Rightarrow>
               if int r \<noteq> vec_len \<or> length (shape a) < 2
               then Inl (ValueError ''Summary operation output format incorrect.'')
               else Inr a))"

definition discrepancy_operation ::
  "(ndarray list \<Rightarrow> ndarray list \<Rightarrow> pyobj) \<Rightarrow> ndarray list \<Rightarrow> ndarray list \<Rightarrow> int \<Rightarrow> exn + ndarray" where
  "discrepancy_operation f data obs vec_len =
     (case f data obs of
        NotArray \<Rightarrow> Inl (ValueError ''Discrepancy operation output type incorrect.'')
      | Array a \<Rightarrow>
          if map int (shape a) \<noteq> [vec_len, 1]
          then Inl (ValueError ''Discrepancy operation output format incorrect.'')
          else Inr a)"

definition run_operation ::
  "opkind \<Rightarrow> ndarray list \<Rightarrow> int \<Rightarrow> (nat \<times> nat) option \<Rightarrow> ndarray list option \<Rightarrow> exn + ndarray" where
  "run_operation op data n rs obs =
     (case op of
        Constant v \<Rightarrow> Inr v
      | Simulator f \<Rightarrow>
          (case rs of None \<Rightarrow> Inl (KeyError ''random_state'')
           | Some prng \<Rightarrow> simulator_operation f data n prng)
      | Summary f \<Rightarrow> summary_operation f data n
      | Discrepancy f \<Rightarrow>
          (case obs of None \<Rightarrow> Inl (KeyError ''observed'')
           | Some ob \<Rightarrow> discrepancy_operation f data ob n))"

text \<open>
  What the executor realises for a delayed object (\<^verbatim>\<open>.compute()\<close>). For a chunk this is the
  \<^verbatim>\<open>"data"\<close> entry of its output dict. \<open>rd\<close> is the store's \<^verbatim>\<open>read_data\<close>.
\<close>

fun compute :: "(key_id \<Rightarrow> slice \<Rightarrow> exn + ndarray) \<Rightarrow> dobj \<Rightarrow> exn + ndarray" where
  "compute rd DZeros = Inr \<lparr>shape = [0, 0], flat = []\<rparr>"
| "compute rd (DLiteral v) = Inr v"
| "compute rd (DOperation op ds n idx rs obs) =
     (case collect (map (compute rd) ds) of
        Inl e \<Rightarrow> Inl e
      | Inr data \<Rightarrow> run_operation op data n rs obs)"
| "compute rd (DGetData d) = compute rd d"
| "compute rd (DGetItem d sl) =
     (case compute rd d of Inl e \<Rightarrow> Inl e | Inr a \<Rightarrow> getitem a sl)"
| "compute rd (DVStack ds) =
     (case collect (map (compute rd) ds) of Inl e \<Rightarrow> Inl e | Inr arrs \<Rightarrow> vstack arrs)"
| "compute rd (DStoreRead i sl) = rd i sl"

text \<open>
  The applications of user operations that realising a delayed object runs, each with its
  \<open>n\<close> and \<open>index\<close>.
\<close>

fun invocations :: "dobj \<Rightarrow> (opkind \<times> int \<times> int) list" where
  "invocations DZeros = []"
| "invocations (DLiteral v) = []"
| "invocations (DOperation op ds n idx rs obs) = concat (map invocations ds) @ [(op, n, idx)]"
| "invocations (DGetData d) = invocations d"
| "invocations (DGetItem d sl) = invocations d"
| "invocations (DVStack ds) = concat (map invocations ds)"
| "invocations (DStoreRead i sl) = []"

section \<open>The output cache (\<^verbatim>\<open>DelayedOutputCache\<close>)\<close>

type_synonym gid = nat
type_synonym sid = nat

text \<open>
  Modelled from the spec: the backing store (\<^verbatim>\<open>elfi/storage.py\<close> is not among the sources).
  \<open>write\<close> persists a chunk under its key, \<open>reset\<close> purges all persisted data of a node
  identity, \<open>read_data\<close> gives a handle on the persisted data of an identity and a range.
  A store is kept as the list of the keys written to it; stores are objects that several
  caches may share, so they live in a heap of their own.
\<close>

type_synonym store_heap = "sid \<Rightarrow> key list"

text \<open>Modelled from the spec: \<^verbatim>\<open>ElfiStore.write\<close>, which persists a chunk under its key.\<close>

definition store_write :: "store_heap \<Rightarrow> sid \<Rightarrow> delayed_output \<Rightarrow> store_heap" where
  "store_write ss s out = ss(s := ss s @ [fst out])"

text \<open>
  Modelled from the spec: \<^verbatim>\<open>ElfiStore.reset\<close>, which purges all persisted data of a node
  identity.
\<close>

definition store_reset :: "store_heap \<Rightarrow> sid \<Rightarrow> key_id \<Rightarrow> store_heap" where
  "store_reset ss s ident = ss(s := filter (\<lambda>k. fst k \<noteq> ident) (ss s))"

text \<open>
  The cache: the parallel lists \<^verbatim>\<open>_delayed_outputs\<close> and \<^verbatim>\<open>_stored_mask\<close>, which the class
  only ever extends and clears together, as one list of pairs; the store, if any; and the
  identity the cache is bound to.
\<close>

record cache =
  entries :: "(delayed_output \<times> bool) list"
  store :: "sid option"
  node_id :: key_id

text \<open>\<^verbatim>\<open>DelayedOutputCache.__len__\<close>\<close>

definition cache_len :: "cache \<Rightarrow> int" where
  "cache_len c = sum_list (map (\<lambda>(out, stored). slen (get_key_slice (fst out))) (entries c))"

text \<open>
  \<^verbatim>\<open>DelayedOutputCache.append\<close>: the exception raised, if any, and the cache and the stores
  as the call leaves them.
\<close>

definition cache_append ::
  "cache \<Rightarrow> store_heap \<Rightarrow> delayed_output \<Rightarrow> exn option \<times> cache \<times> store_heap" where
  "cache_append c ss out =
     (if cache_len c \<noteq> start (get_key_slice (fst out))
      then (Some (ValueError ''Appending a non matching slice''), c, ss)
      else (None, c\<lparr>entries := entries c @ [(out, False)]\<rparr>,
            (case store c of None \<Rightarrow> ss | Some s \<Rightarrow> store_write ss s out)))"

text \<open>\<^verbatim>\<open>DelayedOutputCache.reset\<close>\<close>

definition cache_reset :: "cache \<Rightarrow> store_heap \<Rightarrow> key_id \<Rightarrow> cache \<times> store_heap" where
  "cache_reset c ss new_node_id =
     (c\<lparr>entries := [], node_id := new_node_id\<rparr>,
      (case store c of None \<Rightarrow> ss | Some s \<Rightarrow> store_reset ss s (node_id c)))"

text \<open>\<^verbatim>\<open>DelayedOutputCache._get_output_datalist\<close>\<close>

definition get_output_datalist :: "cache \<Rightarrow> slice \<Rightarrow> dobj list" where
  "get_output_datalist c sl =
     concat (map (\<lambda>(out, stored).
        (let output_sl = get_key_slice (fst out);
             intsect_sl = slice_intersect output_sl sl 0
         in if slen intsect_sl = 0 then []
            else
              (let output_data = (if stored then DStoreRead (node_id c) output_sl
                                  else DGetData (snd out))
               in if slen intsect_sl \<noteq> slen output_sl
                  then [DGetItem output_data (slice_intersect intsect_sl intsect_sl (start output_sl))]
                  else [output_data]))) (entries c))"

text \<open>\<^verbatim>\<open>DelayedOutputCache.__getitem__\<close>\<close>

definition cache_getitem :: "cache \<Rightarrow> slice \<Rightarrow> dobj" where
  "cache_getitem c sl =
     (case get_output_datalist c sl of
        [] \<Rightarrow> DZeros
      | [d] \<Rightarrow> d
      | ds \<Rightarrow> DVStack ds)"

section \<open>Operation nodes (\<^verbatim>\<open>class Operation\<close>)\<close>

text \<open>
  An Operation is a Node with an operation, a generate index, a count of resets and an
  output cache. \<open>inference_task\<close> is \<^verbatim>\<open>Node.graph\<close>, which \<^verbatim>\<open>Operation.__init__\<close> always sets;
  \<open>observed\<close> is the attribute of \<^verbatim>\<open>ObservedMixin\<close>, absent on other nodes.
\<close>

record op_node = node +
  inference_task :: gid
  operation :: opkind
  observed :: "ndarray option"
  generate_index :: int
  num_resets :: nat
  delayed_outputs :: cache

text \<open>
  Modelled from the spec: the inference task (\<^verbatim>\<open>elfi/inference_task.py\<close> is not among the
  sources) is a graph with a master seed and a monotonic counter of sub-streams, claimed
  when an input dict is built.
\<close>

record task = graph +
  seed :: nat
  sub_stream_index :: nat

record state =
  nodes :: "nid \<Rightarrow> op_node"
  tasks :: "gid \<Rightarrow> task"
  stores :: store_heap

text \<open>The properties \<^verbatim>\<open>Operation.version\<close> and \<^verbatim>\<open>Operation.id\<close>.\<close>

definition version :: "state \<Rightarrow> nid \<Rightarrow> nat" where
  "version st self = num_resets (nodes st self)"

definition op_id :: "state \<Rightarrow> nid \<Rightarrow> key_id" where
  "op_id st self =
     make_key_id (gname (tasks st (inference_task (nodes st self))))
       (name (nodes st self)) (version st self)"

text \<open>\<^verbatim>\<open>Operation.__getitem__\<close>\<close>

definition op_getitem :: "state \<Rightarrow> nid \<Rightarrow> slice \<Rightarrow> dobj" where
  "op_getitem st self sl = cache_getitem (delayed_outputs (nodes st self)) sl"

type_synonym input_dict =
  "dobj list \<times> int \<times> int \<times> (nat \<times> nat) option \<times> ndarray list option"

text \<open>\<^verbatim>\<open>Operation._create_delayed_output\<close>\<close>

definition create_delayed_output ::
  "state \<Rightarrow> nid \<Rightarrow> slice \<Rightarrow> input_dict \<Rightarrow> (string \<times> ndarray) list option \<Rightarrow> delayed_output" where
  "create_delayed_output st self sl input_dict with_values =
     (let wv = (case with_values of None \<Rightarrow> [] | Some d \<Rightarrow> d);
          dask_key = make_key (op_id st self) sl
      in case map_of wv (name (nodes st self)) of
           Some v \<Rightarrow> (dask_key, DLiteral v)
         | None \<Rightarrow>
             (case input_dict of (data, n, idx, rs, obs) \<Rightarrow>
                (dask_key, DOperation (operation (nodes st self)) data n idx rs obs)))"

text \<open>
  \<^verbatim>\<open>[p.get_slice(sl, with_values) for p in self.parents]\<close>, for \<open>g\<close> the call
  \<^verbatim>\<open>p.get_slice(sl, with_values)\<close> on a state.
\<close>

fun get_slices ::
  "(state \<Rightarrow> nid \<Rightarrow> exn + dobj \<times> state) \<Rightarrow> nid list \<Rightarrow> state \<Rightarrow> exn + dobj list \<times> state" where
  "get_slices g [] st = Inr ([], st)"
| "get_slices g (p # ps) st =
     (case g st p of
        Inl e \<Rightarrow> Inl e
      | Inr (d, st1) \<Rightarrow>
          (case get_slices g ps st1 of
             Inl e \<Rightarrow> Inl e
           | Inr (ds, st2) \<Rightarrow> Inr (d # ds, st2)))"

text \<open>\<^verbatim>\<open>tuple([p.observed for p in self.parents])\<close>\<close>

fun parents_observed :: "state \<Rightarrow> nid list \<Rightarrow> exn + ndarray list" where
  "parents_observed st [] = Inr []"
| "parents_observed st (p # ps) =
     (case observed (nodes st p) of
        None \<Rightarrow> Inl (AttributeError ''observed'')
      | Some v \<Rightarrow>
          (case parents_observed st ps of Inl e \<Rightarrow> Inl e | Inr vs \<Rightarrow> Inr (v # vs)))"

text \<open>
  \<^verbatim>\<open>_create_input_dict\<close>: that of \<^verbatim>\<open>Operation\<close>, extended by \<^verbatim>\<open>RandomStateMixin\<close> for a
  simulator (a new sub-stream is claimed) and by \<^verbatim>\<open>Discrepancy\<close> (the parents' observed
  values).
\<close>

definition create_input_dict ::
  "(state \<Rightarrow> nid \<Rightarrow> exn + dobj \<times> state) \<Rightarrow> state \<Rightarrow> nid \<Rightarrow> slice \<Rightarrow> exn + input_dict \<times> state" where
  "create_input_dict g st self sl =
     (case get_slices g (parents (nodes st self)) st of
        Inl e \<Rightarrow> Inl e
      | Inr (input_data, st1) \<Rightarrow>
          (let n = stop sl - start sl in
           case operation (nodes st1 self) of
             Simulator f \<Rightarrow>
               (let it = inference_task (nodes st1 self);
                    t = tasks st1 it
                in Inr ((input_data, n, start sl, Some (seed t, sub_stream_index t), None),
                        st1\<lparr>tasks := (tasks st1)
                           (it := t\<lparr>sub_stream_index := Suc (sub_stream_index t)\<rparr>)\<rparr>))
           | Discrepancy f \<Rightarrow>
               (case parents_observed st1 (parents (nodes st1 self)) of
                  Inl e \<Rightarrow> Inl e
                | Inr obs \<Rightarrow> Inr ((input_data, n, start sl, None, Some obs), st1))
           | _ \<Rightarrow> Inr ((input_data, n, start sl, None, None), st1)))"

definition as_pydata :: "(string \<times> ndarray) list option \<Rightarrow> (string \<times> pydata) list option" where
  "as_pydata wv = map_option (map (\<lambda>(k, v). (k, PyArray v))) wv"

text \<open>
  \<^verbatim>\<open>Operation.get_slice(sl, with_values)\<close>: the delayed slice and the state after the call,
  or the exception raised.
\<close>

fun get_slice ::
  "nat \<Rightarrow> state \<Rightarrow> nid \<Rightarrow> slice \<Rightarrow> (string \<times> pydata) list option \<Rightarrow> exn + dobj \<times> state" where
  "get_slice 0 st self sl with_values = Inl RecursionError"
| "get_slice (Suc fuel) st self sl with_values =
     (if cache_len (delayed_outputs (nodes st self)) < stop sl then
        (let wv = normalize_data_dict with_values
                    (stop sl - cache_len (delayed_outputs (nodes st self)));
             new_sl = \<lparr>start = cache_len (delayed_outputs (nodes st self)), stop = stop sl\<rparr>
         in case create_input_dict (\<lambda>s p. get_slice fuel s p new_sl (as_pydata wv)) st self new_sl of
              Inl e \<Rightarrow> Inl e
            | Inr (new_input, st1) \<Rightarrow>
                (case cache_append (delayed_outputs (nodes st1 self)) (stores st1)
                        (create_delayed_output st1 self new_sl new_input wv) of
                   (Some e, c, ss) \<Rightarrow> Inl e
                 | (None, c, ss) \<Rightarrow>
                     (let st2 = st1\<lparr>nodes := (nodes st1)
                                       (self := (nodes st1 self)\<lparr>delayed_outputs := c\<rparr>),
                                     stores := ss\<rparr>
                      in Inr (op_getitem st2 self sl, st2))))
      else Inr (op_getitem st self sl, st))"

text \<open>
  \<^verbatim>\<open>{k: v[(l-a):(l-a)+n_batch] for k, v in with_values.items()}\<close>, or None for None.
\<close>

fun slice_values :: "(string \<times> ndarray) list \<Rightarrow> slice \<Rightarrow> exn + (string \<times> pydata) list" where
  "slice_values [] sl = Inr []"
| "slice_values ((k, v) # kvs) sl =
     (case getitem v sl of
        Inl e \<Rightarrow> Inl e
      | Inr w \<Rightarrow>
          (case slice_values kvs sl of Inl e \<Rightarrow> Inl e | Inr ws \<Rightarrow> Inr ((k, PyArray w) # ws)))"

definition batch_values ::
  "(string \<times> ndarray) list option \<Rightarrow> slice \<Rightarrow> exn + (string \<times> pydata) list option" where
  "batch_values with_values sl =
     (case with_values of
        None \<Rightarrow> Inr None
      | Some d \<Rightarrow> (case slice_values d sl of Inl e \<Rightarrow> Inl e | Inr ws \<Rightarrow> Inr (Some ws)))"

text \<open>
  The \<^verbatim>\<open>while\<close> loop of \<^verbatim>\<open>Operation.generate\<close>. It may run forever; the first argument
  bounds the number of tests of its condition, and \<open>None\<close> is a loop that has not ended
  within the bound.
\<close>

fun generate_loop ::
  "nat \<Rightarrow> nat \<Rightarrow> state \<Rightarrow> nid \<Rightarrow> int \<Rightarrow> int \<Rightarrow> int \<Rightarrow> (string \<times> ndarray) list option
     \<Rightarrow> (exn + state) option" where
  "generate_loop 0 fuel st self a b batch_size with_values = None"
| "generate_loop (Suc k) fuel st self a b batch_size with_values =
     (if cache_len (delayed_outputs (nodes st self)) < b then
        (let l = cache_len (delayed_outputs (nodes st self));
             n_batch = min (b - l) batch_size;
             batch_sl = \<lparr>start = l, stop = l + n_batch\<rparr>
         in case batch_values with_values \<lparr>start = l - a, stop = (l - a) + n_batch\<rparr> of
              Inl e \<Rightarrow> Some (Inl e)
            | Inr bv \<Rightarrow>
                (case get_slice fuel st self batch_sl bv of
                   Inl e \<Rightarrow> Some (Inl e)
                 | Inr (d, st1) \<Rightarrow> generate_loop k fuel st1 self a b batch_size with_values))
      else Some (Inr st))"

text \<open>
  \<^verbatim>\<open>Operation.generate(n, batch_size, with_values)\<close>; \<^verbatim>\<open>batch_size or n\<close> takes \<open>n\<close> for None
  and for 0.
\<close>

definition generate ::
  "nat \<Rightarrow> nat \<Rightarrow> state \<Rightarrow> nid \<Rightarrow> int \<Rightarrow> int option \<Rightarrow> (string \<times> pydata) list option
     \<Rightarrow> (exn + dobj \<times> state) option" where
  "generate k fuel st self n batch_size with_values =
     (let a = generate_index (nodes st self);
          b = a + n;
          bs = (case batch_size of None \<Rightarrow> n | Some s \<Rightarrow> if s = 0 then n else s);
          wv = normalize_data_dict with_values n
      in case generate_loop k fuel st self a b bs wv of
           None \<Rightarrow> None
         | Some (Inl e) \<Rightarrow> Some (Inl e)
         | Some (Inr st1) \<Rightarrow>
             (let st2 = st1\<lparr>nodes := (nodes st1)
                               (self := (nodes st1 self)\<lparr>generate_index := b\<rparr>)\<rparr>
              in Some (Inr (op_getitem st2 self \<lparr>start = a, stop = b\<rparr>, st2))))"

text \<open>\<^verbatim>\<open>Operation.acquire(n, starting, batch_size, **kwargs)\<close>\<close>

definition acquire ::
  "nat \<Rightarrow> nat \<Rightarrow> state \<Rightarrow> nid \<Rightarrow> int \<Rightarrow> int \<Rightarrow> int option \<Rightarrow> (string \<times> pydata) list option
     \<Rightarrow> (exn + dobj \<times> state) option" where
  "acquire k fuel st self n starting batch_size with_values =
     (let sl = \<lparr>start = starting, stop = starting + n\<rparr>
      in if generate_index (nodes st self) < stop sl then
           (case generate k fuel st self (stop sl - generate_index (nodes st self))
                   batch_size with_values of
              None \<Rightarrow> None
            | Some (Inl e) \<Rightarrow> Some (Inl e)
            | Some (Inr (d, st1)) \<Rightarrow> Some (get_slice fuel st1 self sl None))
         else Some (get_slice fuel st self sl None))"

text \<open>
  \<^verbatim>\<open>Operation.reset(propagate)\<close>. The children are reset first, each with the default
  \<open>propagate=True\<close>; then the node itself.
\<close>

definition reset_self :: "state \<Rightarrow> nid \<Rightarrow> state" where
  "reset_self st self =
     (let st1 = st\<lparr>nodes := (nodes st)
                      (self := (nodes st self)\<lparr>generate_index := 0,
                                                num_resets := num_resets (nodes st self) + 1\<rparr>)\<rparr>;
          (c, ss) = cache_reset (delayed_outputs (nodes st1 self)) (stores st1) (op_id st1 self)
      in st1\<lparr>nodes := (nodes st1)(self := (nodes st1 self)\<lparr>delayed_outputs := c\<rparr>),
             stores := ss\<rparr>)"

fun resets :: "(state \<Rightarrow> nid \<Rightarrow> exn + state) \<Rightarrow> nid list \<Rightarrow> state \<Rightarrow> exn + state" where
  "resets r [] st = Inr st"
| "resets r (c # cs) st = (case r st c of Inl e \<Rightarrow> Inl e | Inr st1 \<Rightarrow> resets r cs st1)"

fun reset :: "nat \<Rightarrow> state \<Rightarrow> nid \<Rightarrow> bool \<Rightarrow> exn + state" where
  "reset 0 st self propagate = Inl RecursionError"
| "reset (Suc fuel) st self propagate =
     (case (if propagate
            then resets (\<lambda>s c. reset fuel s c True) (children (nodes st self)) st
            else Inr st) of
        Inl e \<Rightarrow> Inl e
      | Inr st1 \<Rightarrow> Inr (reset_self st1 self))"

text \<open>The value \<^verbatim>\<open>Constant.__init__\<close> keeps: \<^verbatim>\<open>normalize_data(value, len(value))\<close> for a list, a
  tuple or an array, \<^verbatim>\<open>normalize_data(value, 1)\<close> otherwise.\<close>

definition constant_value :: "pydata \<Rightarrow> ndarray" where
  "constant_value v =
     (case v of
        PyArray a \<Rightarrow> normalize_data v (int (hd (shape a)))
      | PyScalar x \<Rightarrow> normalize_data v 1)"

section \<open>Notions used in the statements\<close>

text \<open>The body of the loops of \<open>descendants\<close> and \<open>ancestors\<close>, for \<open>g\<close> the recursive call.\<close>

definition extend_with ::
  "(nid \<Rightarrow> exn + nid list) \<Rightarrow> nid \<Rightarrow> exn + nid list \<Rightarrow> exn + nid list" where
  "extend_with g = (\<lambda>n acc. case acc of Inl e \<Rightarrow> Inl e
                   | Inr ds \<Rightarrow> (case g n of Inl e \<Rightarrow> Inl e
                                | Inr ms \<Rightarrow> Inr (append_new ms ds)))"

text \<open>The edges of a heap, read from the children lists and from the parents lists.\<close>

definition child_rel :: "'a heap \<Rightarrow> (nid \<times> nid) set" where
  "child_rel h = {(n, c). c \<in> set (children (h n))}"


subsection \<open>Invariants and frames of the engine\<close>

text \<open>The index ranges of the chunks of a cache, in order.\<close>

definition chunk_slices :: "cache \<Rightarrow> slice list" where
  "chunk_slices c = map (\<lambda>(out, stored). get_key_slice (fst out)) (entries c)"

text \<open>\<open>covers ss a b\<close>: the ranges \<open>ss\<close> are non-empty, each starts where the one before stops, the
  first starts at \<open>a\<close> and the last stops at \<open>b\<close>.\<close>

fun covers :: "slice list \<Rightarrow> int \<Rightarrow> int \<Rightarrow> bool" where
  "covers [] a b = (a = b)"
| "covers (s # ss) a b = (start s = a \<and> start s < stop s \<and> covers ss (stop s) b)"

text \<open>The chunks of a cache cover the indices from 0 to its length.\<close>

definition cache_ok :: "cache \<Rightarrow> bool" where
  "cache_ok c = covers (chunk_slices c) 0 (cache_len c)"

text \<open>A sequence of \<^verbatim>\<open>generate(n, batch_size, with_values)\<close> calls, each on a node of its own,
  stopped by the first exception.\<close>

fun generate_calls ::
  "nat \<Rightarrow> nat \<Rightarrow> state \<Rightarrow> (nid \<times> int \<times> int option \<times> (string \<times> pydata) list option) list
     \<Rightarrow> (exn + state) option" where
  "generate_calls k fuel st [] = Some (Inr st)"
| "generate_calls k fuel st ((self, n, batch_size, with_values) # calls) =
     (case generate k fuel st self n batch_size with_values of
        None \<Rightarrow> None
      | Some (Inl e) \<Rightarrow> Some (Inl e)
      | Some (Inr (d, st1)) \<Rightarrow> generate_calls k fuel st1 calls)"

text \<open>What building slices may change: caches get chunks appended, each of positive length, and
  sub-stream counters advance; every other field of every node and task stays.\<close>

definition evolves :: "state \<Rightarrow> state \<Rightarrow> bool" where
  "evolves st st' =
     ((\<forall>n. \<exists>new. nodes st' n = (nodes st n)\<lparr>delayed_outputs :=
               (delayed_outputs (nodes st n))\<lparr>entries :=
                  entries (delayed_outputs (nodes st n)) @ new\<rparr>\<rparr>
            \<and> (\<forall>e\<in>set new. 0 < slen (get_key_slice (fst (fst e)))))
      \<and> (\<forall>g. \<exists>i\<ge>sub_stream_index (tasks st g).
               tasks st' g = (tasks st g)\<lparr>sub_stream_index := i\<rparr>))"

text \<open>What resets may change: versions grow; a node whose version has grown has generate index 0,
  an empty cache bound to its new identity, and its store holds nothing under the identity
  the cache was bound to; a node whose version is the same is the same; stores only lose
  keys.\<close>

definition reset_frame :: "state \<Rightarrow> state \<Rightarrow> bool" where
  "reset_frame st st' =
     (tasks st' = tasks st
      \<and> (\<forall>s. set (stores st' s) \<subseteq> set (stores st s))
      \<and> (\<forall>n. name (nodes st' n) = name (nodes st n)
             \<and> children (nodes st' n) = children (nodes st n)
             \<and> inference_task (nodes st' n) = inference_task (nodes st n)
             \<and> store (delayed_outputs (nodes st' n)) = store (delayed_outputs (nodes st n))
             \<and> num_resets (nodes st n) \<le> num_resets (nodes st' n)
             \<and> (num_resets (nodes st' n) = num_resets (nodes st n) \<longrightarrow> nodes st' n = nodes st n)
             \<and> (num_resets (nodes st n) < num_resets (nodes st' n) \<longrightarrow>
                   generate_index (nodes st' n) = 0
                 \<and> entries (delayed_outputs (nodes st' n)) = []
                 \<and> node_id (delayed_outputs (nodes st' n)) = op_id st' n
                 \<and> (\<forall>s. store (delayed_outputs (nodes st n)) = Some s \<longrightarrow>
                        (\<forall>k\<in>set (stores st' s). fst k \<noteq> node_id (delayed_outputs (nodes st n)))))))"













subsection \<open>Example graphs\<close>

text \<open>A \<^verbatim>\<open>read_data\<close> for graphs without stores.\<close>

definition no_store :: "key_id \<Rightarrow> slice \<Rightarrow> exn + ndarray" where
  "no_store i sl = Inl (KeyError ''store'')"

text \<open>\<^verbatim>\<open>Constant('c', 3)\<close> alone in its graph, as the constructor leaves it.\<close>

definition constant_state :: state where
  "constant_state =
     \<lparr>nodes = (\<lambda>_. \<lparr>name = ''c'', parents = [], children = [], inference_task = 0,
                     operation = Constant (constant_value (PyScalar (Num 3))),
                     observed = Some (normalize_data (PyArray (constant_value (PyScalar (Num 3)))) 1),
                     generate_index = 0, num_resets = 0,
                     delayed_outputs = \<lparr>entries = [], store = None,
                                         node_id = make_key_id ''task'' ''c'' 0\<rparr>\<rparr>),
      tasks = (\<lambda>_. \<lparr>gname = ''task'', gnodes = [(''c'', 0)], seed = 0, sub_stream_index = 0\<rparr>),
      stores = (\<lambda>_. [])\<rparr>"



text \<open>A constant and a summary of it, after \<^verbatim>\<open>generate(2)\<close> on the summary and then on the constant;
  the summary has a store, which has persisted its chunk.\<close>

definition chain_state :: state where
  "chain_state =
     \<lparr>nodes = (\<lambda>_. \<lparr>name = ''x'', parents = [], children = [], inference_task = 0,
                     operation = Constant \<lparr>shape = [1, 1], flat = [Num 0]\<rparr>,
                     observed = None, generate_index = 0, num_resets = 0,
                     delayed_outputs = \<lparr>entries = [], store = None,
                                         node_id = make_key_id ''task'' ''x'' 0\<rparr>\<rparr>)
         (0 := \<lparr>name = ''c'', parents = [], children = [1], inference_task = 0,
                 operation = Constant (constant_value (PyScalar (Num 3))),
                 observed = Some (constant_value (PyScalar (Num 3))),
                 generate_index = 2, num_resets = 0,
                 delayed_outputs =
                   \<lparr>entries = [(((make_key_id ''task'' ''c'' 0, \<lparr>start = 0, stop = 2\<rparr>),
                                  DOperation (Constant (constant_value (PyScalar (Num 3))))
                                    [] 2 0 None None), False)],
                      store = None, node_id = make_key_id ''task'' ''c'' 0\<rparr>\<rparr>,
          1 := \<lparr>name = ''s'', parents = [0], children = [], inference_task = 0,
                 operation = Summary (\<lambda>data. Array (hd data)),
                 observed = Some (constant_value (PyScalar (Num 3))),
                 generate_index = 2, num_resets = 0,
                 delayed_outputs =
                   \<lparr>entries = [(((make_key_id ''task'' ''s'' 0, \<lparr>start = 0, stop = 2\<rparr>),
                                  DOperation (Summary (\<lambda>data. Array (hd data)))
                                    [DGetData (DOperation (Constant (constant_value (PyScalar (Num 3))))
                                       [] 2 0 None None)] 2 0 None None), True)],
                      store = Some 0, node_id = make_key_id ''task'' ''s'' 0\<rparr>\<rparr>),
      tasks = (\<lambda>_. \<lparr>gname = ''task'', gnodes = [(''c'', 0), (''s'', 1)], seed = 0,
                     sub_stream_index = 0\<rparr>),
      stores = (\<lambda>_. [])(0 := [(make_key_id ''task'' ''s'' 0, \<lparr>start = 0, stop = 2\<rparr>)])\<rparr>"

text \<open>Two constants \<open>x\<close> and \<open>y\<close> and a summary \<open>s\<close> of both, as the constructors leave them: nothing
  generated yet.\<close>

definition family_state :: state where
  "family_state =
     \<lparr>nodes = (\<lambda>_. \<lparr>name = ''z'', parents = [], children = [], inference_task = 0,
                     operation = Constant \<lparr>shape = [1, 1], flat = [Num 0]\<rparr>,
                     observed = None, generate_index = 0, num_resets = 0,
                     delayed_outputs = \<lparr>entries = [], store = None,
                                         node_id = make_key_id ''task'' ''z'' 0\<rparr>\<rparr>)
         (0 := \<lparr>name = ''x'', parents = [], children = [2], inference_task = 0,
                 operation = Constant (constant_value (PyScalar (Num 3))),
                 observed = Some (constant_value (PyScalar (Num 3))),
                 generate_index = 0, num_resets = 0,
                 delayed_outputs = \<lparr>entries = [], store = None,
                                     node_id = make_key_id ''task'' ''x'' 0\<rparr>\<rparr>,
          1 := \<lparr>name = ''y'', parents = [], children = [2], inference_task = 0,
                 operation = Constant (constant_value (PyScalar (Num 5))),
                 observed = Some (constant_value (PyScalar (Num 5))),
                 generate_index = 0, num_resets = 0,
                 delayed_outputs = \<lparr>entries = [], store = None,
                                     node_id = make_key_id ''task'' ''y'' 0\<rparr>\<rparr>,
          2 := \<lparr>name = ''s'', parents = [0, 1], children = [], inference_task = 0,
                 operation = Summary (\<lambda>data. Array (hd data)),
                 observed = Some (constant_value (PyScalar (Num 3))),
                 generate_index = 0, num_resets = 0,
                 delayed_outputs = \<lparr>entries = [], store = None,
                                     node_id = make_key_id ''task'' ''s'' 0\<rparr>\<rparr>),
      tasks = (\<lambda>_. \<lparr>gname = ''task'', gnodes = [(''x'', 0), (''y'', 1), (''s'', 2)], seed = 0,
                     sub_stream_index = 0\<rparr>),
      stores = (\<lambda>_. [])\<rparr>"

text \<open>Two operations built with the name \<open>N\<close> in one task: the first, at address 0, has a store
  and is registered; the second, at address 1, is about to be registered.\<close>

definition collision_state :: state where
  "collision_state =
     \<lparr>nodes = (\<lambda>_. \<lparr>name = ''N'', parents = [], children = [], inference_task = 0,
                     operation = Constant \<lparr>shape = [1, 1], flat = [Num 1]\<rparr>,
                     observed = Some \<lparr>shape = [1, 1], flat = [Num 1]\<rparr>,
                     generate_index = 0, num_resets = 0,
                     delayed_outputs = \<lparr>entries = [], store = None,
                                         node_id = make_key_id ''task'' ''N'' 0\<rparr>\<rparr>)
         (0 := \<lparr>name = ''N'', parents = [], children = [], inference_task = 0,
                 operation = Constant \<lparr>shape = [1, 1], flat = [Num 0]\<rparr>,
                 observed = Some \<lparr>shape = [1, 1], flat = [Num 0]\<rparr>,
                 generate_index = 0, num_resets = 0,
                 delayed_outputs = \<lparr>entries = [], store = Some 0,
                                     node_id = make_key_id ''task'' ''N'' 0\<rparr>\<rparr>),
      tasks = (\<lambda>_. \<lparr>gname = ''task'', gnodes = [(''N'', 0)], seed = 0, sub_stream_index = 0\<rparr>),
      stores = (\<lambda>_. [])\<rparr>"

text \<open>The state after \<^verbatim>\<open>Graph.add_node\<close> has registered the second operation: the first
  has been renamed.\<close>

definition renamed_state :: state where
  "renamed_state =
     (case add_node (tasks collision_state 0) (nodes collision_state) 1 of
        (t, h) \<Rightarrow> collision_state\<lparr>nodes := h, tasks := (tasks collision_state)(0 := t)\<rparr>)"

section \<open>Graph structure\<close>

subsection \<open>Traversals\<close>

lemma set_append_new: "set (append_new ms acc) = set ms \<union> set acc"
  unfolding append_new_def
  by (induction ms arbitrary: acc) auto

lemma fold_extend_Inl: "fold (extend_with g) cs (Inl e) = Inl e"
  by (induction cs) (auto simp: extend_with_def)


lemma fold_extend_total:
  "\<forall>c\<in>set cs. \<exists>ms. g c = Inr ms \<Longrightarrow> \<exists>ds. fold (extend_with g) cs (Inr acc) = Inr ds"
proof (induction cs arbitrary: acc)
  case Nil
  then show ?case by simp
next
  case (Cons c cs)
  then obtain ms where "g c = Inr ms" by auto
  then have "fold (extend_with g) (c # cs) (Inr acc) = fold (extend_with g) cs (Inr (append_new ms acc))"
    by (simp add: extend_with_def)
  with Cons show ?case by auto
qed

lemma descendants_Suc: "descendants (Suc f) h n = fold (extend_with (descendants f h)) (children (h n)) (Inr (children (h n)))"
  by (simp add: extend_with_def)



lemma fold_extend_sub:
  "fold (extend_with g) cs (Inr acc) = Inr ds \<Longrightarrow> m \<in> set ds \<Longrightarrow>
     m \<in> set acc \<or> (\<exists>c\<in>set cs. \<exists>ms. g c = Inr ms \<and> m \<in> set ms)"
proof (induction cs arbitrary: acc)
  case Nil
  then show ?case by simp
next
  case (Cons c cs)
  show ?case
  proof (cases "g c")
    case (Inl e)
    with Cons.prems show ?thesis by (simp add: extend_with_def fold_extend_Inl[unfolded extend_with_def])
  next
    case (Inr ms)
    with Cons.prems have "fold (extend_with g) cs (Inr (append_new ms acc)) = Inr ds"
      by (simp add: extend_with_def)
    from Cons.IH[OF this Cons.prems(2)] Inr show ?thesis by (auto simp: set_append_new)
  qed
qed



lemma descendants_total:
  assumes "\<forall>n c. c \<in> set (children (h n)) \<longrightarrow> rank c < rank n"
  shows "rank n < f \<Longrightarrow> \<exists>ds. descendants f h n = Inr ds"
proof (induction f arbitrary: n)
  case 0
  then show ?case by simp
next
  case (Suc f)
  have "\<forall>c\<in>set (children (h n)). \<exists>ms. descendants f h c = Inr ms"
  proof
    fix c assume "c \<in> set (children (h n))"
    with assms have "rank c < rank n" by blast
    with Suc.prems have "rank c < f" by simp
    then show "\<exists>ms. descendants f h c = Inr ms" by (rule Suc.IH)
  qed
  from fold_extend_total[OF this] show ?case by (simp only: descendants_Suc)
qed


subsection \<open>Cycle rejection\<close>



subsection \<open>Insertion indices\<close>

lemma add_parent_index_out_of_bounds:
  assumes "descendants fuel h self = Inr ds" "nd \<notin> set ds" "nd \<notin> set (parents (h self))"
    "i < 0 \<or> i > int (length (parents (h self)))"
  shows "add_parent fuel h self (Some nd) (Some i) index_child
           = (Some (ValueError ''Index out of bounds.''), h)"
  using assms by (simp add: add_parent_def)

text \<open>
  Claim C8. On two fresh nodes, \<open>B.add_parent(A, index_child=5)\<close> raises the ValueError for
  an index out of bounds, raised by \<open>A._add_child\<close>, after \<open>A\<close> has been inserted into the
  parents of \<open>B\<close>: the heap the call leaves has \<open>A\<close> among the parents of \<open>B\<close> and \<open>B\<close> not
  among the children of \<open>A\<close>.
\<close>

theorem add_parent_child_index_partial:
  "add_parent 1 (\<lambda>_. \<lparr>name = ''n'', parents = [], children = []\<rparr>) 1 (Some 0) None (Some 5)
     = (Some (ValueError ''Index out of bounds.''),
        (\<lambda>_. \<lparr>name = ''n'', parents = [], children = []\<rparr>)
           (1 := \<lparr>name = ''n'', parents = [0], children = []\<rparr>))"
  by (simp add: add_parent_def add_child_def list_insert_def)

subsection \<open>Name collisions\<close>

lemma old_name_fresh: "old_name d nm \<notin> fst ` set d"
proof (induction d nm rule: old_name.induct)
  case (1 d nm)
  show ?case
  proof (cases "nm \<in> fst ` set d")
    case True
    with 1 show ?thesis by (subst old_name.simps) simp
  next
    case False
    then show ?thesis by (subst old_name.simps) simp
  qed
qed

lemma old_name_suffix: "\<exists>k. old_name d nm = nm @ concat (replicate k ''_old'')"
proof (induction d nm rule: old_name.induct)
  case (1 d nm)
  show ?case
  proof (cases "nm \<in> fst ` set d")
    case True
    with 1 obtain k where "old_name d (nm @ ''_old'') = (nm @ ''_old'') @ concat (replicate k ''_old'')"
      by blast
    with True have "old_name d nm = nm @ concat (replicate (Suc k) ''_old'')"
      by (subst old_name.simps) simp
    then show ?thesis by blast
  next
    case False
    then have "old_name d nm = nm @ concat (replicate 0 ''_old'')"
      by (subst old_name.simps) simp
    then show ?thesis by blast
  qed
qed

lemma map_of_in_keys: "map_of d k = Some v \<Longrightarrow> k \<in> fst ` set d"
  by (metis domI dom_map_of_conv_image_fst)

lemma map_of_in_values: "map_of d k = Some v \<Longrightarrow> v \<in> snd ` set d"
  by (metis map_of_SomeD snd_conv image_eqI)

text \<open>
  Claim C9. When the graph holds \<open>X\<close> under the name \<open>N\<close> and a node \<open>Y\<close> named \<open>N\<close> that
  is not registered is added, \<open>X\<close> is renamed to \<open>N\<close> followed by as many \<open>_old\<close> as it
  takes to leave the names of the graph, \<open>X\<close> is registered under that name and \<open>Y\<close> under
  \<open>N\<close>, every other name keeps its node, and no parents or children list changes. Adding
  a node that is registered changes nothing.
\<close>

theorem add_node_renames_occupant:
  assumes occ: "map_of (gnodes g) N = Some X"
    and nm: "name (h Y) = N"
    and new: "Y \<notin> snd ` set (gnodes g)"
    and res: "add_node g h Y = (g', h')"
  shows "name (h' X) = old_name (gnodes g) N
          \<and> name (h' X) \<notin> fst ` set (gnodes g)
          \<and> (\<exists>k. name (h' X) = N @ concat (replicate k ''_old''))
          \<and> map_of (gnodes g') (name (h' X)) = Some X
          \<and> map_of (gnodes g') N = Some Y
          \<and> (\<forall>k. k \<noteq> N \<and> k \<noteq> name (h' X) \<longrightarrow> map_of (gnodes g') k = map_of (gnodes g) k)
          \<and> (\<forall>n. parents (h' n) = parents (h n) \<and> children (h' n) = children (h n))
          \<and> (\<forall>n. n \<noteq> X \<longrightarrow> h' n = h n)
          \<and> add_node g' h' Y = (g', h')
          \<and> add_node g' h' X = (g', h')
          \<and> (\<forall>Z \<in> snd ` set (gnodes g). add_node g h Z = (g, h))"
proof -
  let ?o = "old_name (gnodes g) N"
  from occ have Nin: "N \<in> fst ` set (gnodes g)" by (rule map_of_in_keys)
  from occ have Xin: "X \<in> snd ` set (gnodes g)" by (rule map_of_in_values)
  with new have YX: "Y \<noteq> X" by blast
  have fresh: "?o \<notin> fst ` set (gnodes g)" by (rule old_name_fresh)
  with Nin have oN: "?o \<noteq> N" by blast
  have "add_node g h Y =
     (g\<lparr>gnodes := AList.update N Y (AList.update ?o X (gnodes g))\<rparr>, rename h X ?o)"
    using occ nm new YX by (simp add: add_node_def rename_def Let_def)
  with res have g': "g' = g\<lparr>gnodes := AList.update N Y (AList.update ?o X (gnodes g))\<rparr>"
    and h': "h' = rename h X ?o" by simp_all
  have m1: "map_of (gnodes g') ?o = Some X"
    using oN by (simp add: g' update_conv')
  have m2: "map_of (gnodes g') N = Some Y"
    by (simp add: g' update_conv')
  have vals: "Y \<in> snd ` set (gnodes g')"
    using m2 by (rule map_of_in_values)
  have valsX: "X \<in> snd ` set (gnodes g')"
    using m1 by (rule map_of_in_values)
  have nX: "name (h' X) = ?o" by (simp add: h' rename_def)
  have other: "\<forall>k. k \<noteq> N \<and> k \<noteq> name (h' X) \<longrightarrow> map_of (gnodes g') k = map_of (gnodes g) k"
    by (simp add: nX g' update_conv')
  have adj: "\<forall>n. parents (h' n) = parents (h n) \<and> children (h' n) = children (h n)"
    by (simp add: h' rename_def)
  have frame: "\<forall>n. n \<noteq> X \<longrightarrow> h' n = h n"
    by (simp add: h' rename_def)
  have r1: "add_node g' h' Y = (g', h')" using vals by (simp add: add_node_def)
  have r2: "add_node g' h' X = (g', h')" using valsX by (simp add: add_node_def)
  have r3: "\<forall>Z \<in> snd ` set (gnodes g). add_node g h Z = (g, h)" by (simp add: add_node_def)
  from old_name_suffix[of "gnodes g" N] have suf: "\<exists>k. name (h' X) = N @ concat (replicate k ''_old'')"
    by (simp add: nX)
  from nX fresh suf m1 m2 other adj frame r1 r2 r3 show ?thesis by simp
qed

theorem add_node_renames_occupant_witness:
  "name (snd (add_node \<lparr>gname = ''g'', gnodes = [(''N'', 0), (''N_old'', 2)]\<rparr>
           ((\<lambda>_. \<lparr>name = ''N_old'', parents = [], children = []\<rparr>)
              (0 := \<lparr>name = ''N'', parents = [3], children = [4]\<rparr>,
               1 := \<lparr>name = ''N'', parents = [], children = []\<rparr>)) 1) 0) = ''N_old_old''
   \<and> map_of (gnodes (fst (add_node \<lparr>gname = ''g'', gnodes = [(''N'', 0), (''N_old'', 2)]\<rparr>
           ((\<lambda>_. \<lparr>name = ''N_old'', parents = [], children = []\<rparr>)
              (0 := \<lparr>name = ''N'', parents = [3], children = [4]\<rparr>,
               1 := \<lparr>name = ''N'', parents = [], children = []\<rparr>)) 1))) ''N'' = Some 1"
  using add_node_renames_occupant[of "\<lparr>gname = ''g'', gnodes = [(''N'', 0), (''N_old'', 2)]\<rparr>" "''N''" 0
     "((\<lambda>_. \<lparr>name = ''N_old'', parents = [], children = []\<rparr>)
              (0 := \<lparr>name = ''N'', parents = [3], children = [4]\<rparr>,
               1 := \<lparr>name = ''N'', parents = [], children = []\<rparr>))" 1,
     OF _ _ _ surjective_pairing]
  by (simp add: old_name.simps)

section \<open>The lazy-slice engine\<close>

subsection \<open>What building a slice preserves\<close>

lemma get_slices_rel:
  assumes refl: "\<And>s. R s s"
    and trans: "\<And>s t u. R s t \<Longrightarrow> R t u \<Longrightarrow> R s u"
    and step: "\<And>s p d s'. g s p = Inr (d, s') \<Longrightarrow> R s s'"
  shows "get_slices g ps st = Inr (ds, st') \<Longrightarrow> R st st'"
proof (induction ps arbitrary: st ds)
  case Nil
  then show ?case by (simp add: refl)
next
  case (Cons p ps)
  from Cons.prems obtain d st1 ds1 where
    a: "g st p = Inr (d, st1)" and b: "get_slices g ps st1 = Inr (ds1, st')"
    by (auto split: sum.splits prod.splits)
  from step[OF a] Cons.IH[OF b] show ?case by (rule trans)
qed

lemma create_input_dict_rel:
  assumes refl: "\<And>s. R s s"
    and trans: "\<And>s t u. R s t \<Longrightarrow> R t u \<Longrightarrow> R s u"
    and step: "\<And>s p d s'. g s p = Inr (d, s') \<Longrightarrow> R s s'"
    and task_step: "\<And>s it. R s (s\<lparr>tasks := (tasks s)
          (it := (tasks s it)\<lparr>sub_stream_index := Suc (sub_stream_index (tasks s it))\<rparr>)\<rparr>)"
  shows "create_input_dict g st self sl = Inr (inp, st') \<Longrightarrow> R st st'"
proof -
  assume c: "create_input_dict g st self sl = Inr (inp, st')"
  then obtain ds st1 where g: "get_slices g (parents (nodes st self)) st = Inr (ds, st1)"
    by (auto simp: create_input_dict_def split: sum.splits)
  have r1: "R st st1" using refl trans step g by (rule get_slices_rel)
  from c g have "st' = st1 \<or> (\<exists>it. st' = st1\<lparr>tasks := (tasks st1)
          (it := (tasks st1 it)\<lparr>sub_stream_index := Suc (sub_stream_index (tasks st1 it))\<rparr>)\<rparr>)"
    by (auto simp: create_input_dict_def Let_def split: sum.splits opkind.splits)
  then show "R st st'" using r1 refl task_step trans by blast
qed

lemma fst_create_delayed_output:
  "fst (create_delayed_output st self sl inp wv) = (op_id st self, sl)"
  by (cases inp) (auto simp: create_delayed_output_def make_key_def Let_def split: option.splits)

lemma get_slice_rel:
  assumes refl: "\<And>s. R s s"
    and trans: "\<And>s t u. R s t \<Longrightarrow> R t u \<Longrightarrow> R s u"
    and task_step: "\<And>s it. R s (s\<lparr>tasks := (tasks s)
          (it := (tasks s it)\<lparr>sub_stream_index := Suc (sub_stream_index (tasks s it))\<rparr>)\<rparr>)"
    and append_step: "\<And>s self k d ss stp.
          cache_len (delayed_outputs (nodes s self)) < stp \<Longrightarrow>
          R s (s\<lparr>nodes := (nodes s)(self := (nodes s self)\<lparr>delayed_outputs :=
                  (delayed_outputs (nodes s self))\<lparr>entries :=
                     entries (delayed_outputs (nodes s self)) @
                       [(((k, \<lparr>start = cache_len (delayed_outputs (nodes s self)), stop = stp\<rparr>), d),
                         False)]\<rparr>\<rparr>),
                stores := ss\<rparr>)"
  shows "get_slice fuel st self sl wv = Inr (d, st') \<Longrightarrow> R st st'"
proof (induction fuel arbitrary: st self sl wv d st')
  case 0
  then show ?case by simp
next
  case (Suc fuel)
  show ?case
  proof (cases "cache_len (delayed_outputs (nodes st self)) < stop sl")
    case False
    with Suc.prems show ?thesis by (simp add: refl)
  next
    case True
    let ?l = "cache_len (delayed_outputs (nodes st self))"
    let ?wv = "normalize_data_dict wv (stop sl - ?l)"
    let ?new = "\<lparr>start = ?l, stop = stop sl\<rparr>"
    from Suc.prems True obtain inp st1 where
      ci: "create_input_dict (\<lambda>s p. get_slice fuel s p ?new (as_pydata ?wv)) st self ?new
             = Inr (inp, st1)"
      by (auto simp: Let_def split: sum.splits)
    have r1: "R st st1"
      using refl trans _ task_step ci
    proof (rule create_input_dict_rel)
      fix s p d s' assume "get_slice fuel s p ?new (as_pydata ?wv) = Inr (d, s')"
      then show "R s s'" by (rule Suc.IH)
    qed
    from Suc.prems True ci obtain c ss where
      ap: "cache_append (delayed_outputs (nodes st1 self)) (stores st1)
             (create_delayed_output st1 self ?new inp ?wv) = (None, c, ss)"
      and st': "st' = st1\<lparr>nodes := (nodes st1)(self := (nodes st1 self)\<lparr>delayed_outputs := c\<rparr>),
                         stores := ss\<rparr>"
      by (auto simp: Let_def split: sum.splits prod.splits option.splits)
    obtain k dd where out: "create_delayed_output st1 self ?new inp ?wv = ((k, ?new), dd)"
      using fst_create_delayed_output[of st1 self ?new inp ?wv]
      by (cases "create_delayed_output st1 self ?new inp ?wv") auto
    from ap out have len: "cache_len (delayed_outputs (nodes st1 self)) = ?l"
      by (auto simp: cache_append_def get_key_slice_def split: if_splits)
    from ap out len have c: "c = (delayed_outputs (nodes st1 self))\<lparr>entries :=
          entries (delayed_outputs (nodes st1 self)) @ [(((k, ?new), dd), False)]\<rparr>"
      by (auto simp: cache_append_def get_key_slice_def split: if_splits)
    from True len have lt: "cache_len (delayed_outputs (nodes st1 self)) < stop sl" by simp
    from append_step[OF lt, where k=k and d=dd and ss=ss] have "R st1 st'"
      unfolding st' c len .
    with r1 show ?thesis by (rule trans)
  qed
qed

lemma evolves_refl: "evolves s s"
  unfolding evolves_def
proof (intro conjI allI)
  fix n show "\<exists>new. nodes s n = (nodes s n)\<lparr>delayed_outputs :=
               (delayed_outputs (nodes s n))\<lparr>entries :=
                  entries (delayed_outputs (nodes s n)) @ new\<rparr>\<rparr>
            \<and> (\<forall>e\<in>set new. 0 < slen (get_key_slice (fst (fst e))))"
    by (rule exI[of _ "[]"]) simp
next
  fix g show "\<exists>i\<ge>sub_stream_index (tasks s g). tasks s g = (tasks s g)\<lparr>sub_stream_index := i\<rparr>"
    by (rule exI[of _ "sub_stream_index (tasks s g)"]) simp
qed

lemma evolves_trans: "evolves s t \<Longrightarrow> evolves t u \<Longrightarrow> evolves s u"
  unfolding evolves_def
proof (intro conjI allI)
  fix n
  assume a: "(\<forall>n. \<exists>new. nodes t n = (nodes s n)\<lparr>delayed_outputs :=
               (delayed_outputs (nodes s n))\<lparr>entries :=
                  entries (delayed_outputs (nodes s n)) @ new\<rparr>\<rparr>
            \<and> (\<forall>e\<in>set new. 0 < slen (get_key_slice (fst (fst e)))))
      \<and> (\<forall>g. \<exists>i\<ge>sub_stream_index (tasks s g).
               tasks t g = (tasks s g)\<lparr>sub_stream_index := i\<rparr>)"
    and b: "(\<forall>n. \<exists>new. nodes u n = (nodes t n)\<lparr>delayed_outputs :=
               (delayed_outputs (nodes t n))\<lparr>entries :=
                  entries (delayed_outputs (nodes t n)) @ new\<rparr>\<rparr>
            \<and> (\<forall>e\<in>set new. 0 < slen (get_key_slice (fst (fst e)))))
      \<and> (\<forall>g. \<exists>i\<ge>sub_stream_index (tasks t g).
               tasks u g = (tasks t g)\<lparr>sub_stream_index := i\<rparr>)"
  from a obtain n1 where n1: "nodes t n = (nodes s n)\<lparr>delayed_outputs :=
               (delayed_outputs (nodes s n))\<lparr>entries :=
                  entries (delayed_outputs (nodes s n)) @ n1\<rparr>\<rparr>"
     "\<forall>e\<in>set n1. 0 < slen (get_key_slice (fst (fst e)))" by blast
  from b obtain n2 where n2: "nodes u n = (nodes t n)\<lparr>delayed_outputs :=
               (delayed_outputs (nodes t n))\<lparr>entries :=
                  entries (delayed_outputs (nodes t n)) @ n2\<rparr>\<rparr>"
     "\<forall>e\<in>set n2. 0 < slen (get_key_slice (fst (fst e)))" by blast
  show "\<exists>new. nodes u n = (nodes s n)\<lparr>delayed_outputs :=
               (delayed_outputs (nodes s n))\<lparr>entries :=
                  entries (delayed_outputs (nodes s n)) @ new\<rparr>\<rparr>
            \<and> (\<forall>e\<in>set new. 0 < slen (get_key_slice (fst (fst e))))"
    using n1 n2 by (intro exI[of _ "n1 @ n2"]) auto
next
  fix g
  assume a: "(\<forall>n. \<exists>new. nodes t n = (nodes s n)\<lparr>delayed_outputs :=
               (delayed_outputs (nodes s n))\<lparr>entries :=
                  entries (delayed_outputs (nodes s n)) @ new\<rparr>\<rparr>
            \<and> (\<forall>e\<in>set new. 0 < slen (get_key_slice (fst (fst e)))))
      \<and> (\<forall>g. \<exists>i\<ge>sub_stream_index (tasks s g).
               tasks t g = (tasks s g)\<lparr>sub_stream_index := i\<rparr>)"
    and b: "(\<forall>n. \<exists>new. nodes u n = (nodes t n)\<lparr>delayed_outputs :=
               (delayed_outputs (nodes t n))\<lparr>entries :=
                  entries (delayed_outputs (nodes t n)) @ new\<rparr>\<rparr>
            \<and> (\<forall>e\<in>set new. 0 < slen (get_key_slice (fst (fst e)))))
      \<and> (\<forall>g. \<exists>i\<ge>sub_stream_index (tasks t g).
               tasks u g = (tasks t g)\<lparr>sub_stream_index := i\<rparr>)"
  from a obtain i where i: "i \<ge> sub_stream_index (tasks s g)" "tasks t g = (tasks s g)\<lparr>sub_stream_index := i\<rparr>"
    by blast
  from b obtain j where j: "j \<ge> sub_stream_index (tasks t g)" "tasks u g = (tasks t g)\<lparr>sub_stream_index := j\<rparr>"
    by blast
  from i j show "\<exists>i\<ge>sub_stream_index (tasks s g). tasks u g = (tasks s g)\<lparr>sub_stream_index := i\<rparr>"
    by (intro exI[of _ j]) auto
qed

lemma evolves_task_step:
  "evolves s (s\<lparr>tasks := (tasks s)
          (it := (tasks s it)\<lparr>sub_stream_index := Suc (sub_stream_index (tasks s it))\<rparr>)\<rparr>)"
  unfolding evolves_def
proof (intro conjI allI)
  fix n
  show "\<exists>new. nodes (s\<lparr>tasks := (tasks s)
          (it := (tasks s it)\<lparr>sub_stream_index := Suc (sub_stream_index (tasks s it))\<rparr>)\<rparr>) n =
      (nodes s n)\<lparr>delayed_outputs := (delayed_outputs (nodes s n))\<lparr>entries :=
                  entries (delayed_outputs (nodes s n)) @ new\<rparr>\<rparr>
            \<and> (\<forall>e\<in>set new. 0 < slen (get_key_slice (fst (fst e))))"
    by (rule exI[of _ "[]"]) simp
next
  fix g
  show "\<exists>i\<ge>sub_stream_index (tasks s g). tasks (s\<lparr>tasks := (tasks s)
          (it := (tasks s it)\<lparr>sub_stream_index := Suc (sub_stream_index (tasks s it))\<rparr>)\<rparr>) g
            = (tasks s g)\<lparr>sub_stream_index := i\<rparr>"
  proof (cases "g = it")
    case True
    then show ?thesis by (intro exI[of _ "Suc (sub_stream_index (tasks s it))"]) simp
  next
    case False
    then show ?thesis by (intro exI[of _ "sub_stream_index (tasks s g)"]) simp
  qed
qed

lemma evolves_append_step:
  assumes "cache_len (delayed_outputs (nodes s self)) < stp"
  shows "evolves s (s\<lparr>nodes := (nodes s)(self := (nodes s self)\<lparr>delayed_outputs :=
                  (delayed_outputs (nodes s self))\<lparr>entries :=
                     entries (delayed_outputs (nodes s self)) @
                       [(((k, \<lparr>start = cache_len (delayed_outputs (nodes s self)), stop = stp\<rparr>), d),
                         False)]\<rparr>\<rparr>),
                stores := ss\<rparr>)"
  unfolding evolves_def
proof (intro conjI allI)
  fix n
  let ?s' = "s\<lparr>nodes := (nodes s)(self := (nodes s self)\<lparr>delayed_outputs :=
                  (delayed_outputs (nodes s self))\<lparr>entries :=
                     entries (delayed_outputs (nodes s self)) @
                       [(((k, \<lparr>start = cache_len (delayed_outputs (nodes s self)), stop = stp\<rparr>), d),
                         False)]\<rparr>\<rparr>),
                stores := ss\<rparr>"
  show "\<exists>new. nodes ?s' n =
      (nodes s n)\<lparr>delayed_outputs := (delayed_outputs (nodes s n))\<lparr>entries :=
                  entries (delayed_outputs (nodes s n)) @ new\<rparr>\<rparr>
            \<and> (\<forall>e\<in>set new. 0 < slen (get_key_slice (fst (fst e))))"
  proof (cases "n = self")
    case True
    with assms show ?thesis
      by (intro exI[of _ "[(((k, \<lparr>start = cache_len (delayed_outputs (nodes s self)), stop = stp\<rparr>), d),
                         False)]"]) (simp add: slen_def get_key_slice_def)
  next
    case False
    then show ?thesis by (intro exI[of _ "[]"]) simp
  qed
next
  fix g
  show "\<exists>i\<ge>sub_stream_index (tasks s g). tasks (s\<lparr>nodes := (nodes s)(self := (nodes s self)\<lparr>delayed_outputs :=
                  (delayed_outputs (nodes s self))\<lparr>entries :=
                     entries (delayed_outputs (nodes s self)) @
                       [(((k, \<lparr>start = cache_len (delayed_outputs (nodes s self)), stop = stp\<rparr>), d),
                         False)]\<rparr>\<rparr>),
                stores := ss\<rparr>) g
            = (tasks s g)\<lparr>sub_stream_index := i\<rparr>"
    by (intro exI[of _ "sub_stream_index (tasks s g)"]) simp
qed

lemma get_slice_evolves:
  "get_slice fuel st self sl wv = Inr (d, st') \<Longrightarrow> evolves st st'"
  using evolves_refl evolves_trans evolves_task_step evolves_append_step
  by (rule get_slice_rel)

lemma evolves_fields:
  assumes "evolves st st'"
  shows "generate_index (nodes st' n) = generate_index (nodes st n)"
    and "num_resets (nodes st' n) = num_resets (nodes st n)"
    and "name (nodes st' n) = name (nodes st n)"
    and "parents (nodes st' n) = parents (nodes st n)"
    and "children (nodes st' n) = children (nodes st n)"
    and "operation (nodes st' n) = operation (nodes st n)"
    and "inference_task (nodes st' n) = inference_task (nodes st n)"
    and "observed (nodes st' n) = observed (nodes st n)"
    and "store (delayed_outputs (nodes st' n)) = store (delayed_outputs (nodes st n))"
    and "node_id (delayed_outputs (nodes st' n)) = node_id (delayed_outputs (nodes st n))"
    and "gname (tasks st' g) = gname (tasks st g)"
    and "seed (tasks st' g) = seed (tasks st g)"
proof -
  from assms obtain new where n: "nodes st' n = (nodes st n)\<lparr>delayed_outputs :=
               (delayed_outputs (nodes st n))\<lparr>entries :=
                  entries (delayed_outputs (nodes st n)) @ new\<rparr>\<rparr>"
    unfolding evolves_def by blast
  from assms obtain i where t: "tasks st' g = (tasks st g)\<lparr>sub_stream_index := i\<rparr>"
    unfolding evolves_def by blast
  show "generate_index (nodes st' n) = generate_index (nodes st n)" by (simp add: n)
  show "num_resets (nodes st' n) = num_resets (nodes st n)" by (simp add: n)
  show "name (nodes st' n) = name (nodes st n)" by (simp add: n)
  show "parents (nodes st' n) = parents (nodes st n)" by (simp add: n)
  show "children (nodes st' n) = children (nodes st n)" by (simp add: n)
  show "operation (nodes st' n) = operation (nodes st n)" by (simp add: n)
  show "inference_task (nodes st' n) = inference_task (nodes st n)" by (simp add: n)
  show "observed (nodes st' n) = observed (nodes st n)" by (simp add: n)
  show "store (delayed_outputs (nodes st' n)) = store (delayed_outputs (nodes st n))" by (simp add: n)
  show "node_id (delayed_outputs (nodes st' n)) = node_id (delayed_outputs (nodes st n))" by (simp add: n)
  show "gname (tasks st' g) = gname (tasks st g)" by (simp add: t)
  show "seed (tasks st' g) = seed (tasks st g)" by (simp add: t)
qed

lemma generate_loop_evolves:
  "generate_loop k fuel st self a b bs wv = Some (Inr st') \<Longrightarrow> evolves st st'"
proof (induction k arbitrary: st)
  case 0
  then show ?case by simp
next
  case (Suc k)
  show ?case
  proof (cases "cache_len (delayed_outputs (nodes st self)) < b")
    case False
    with Suc.prems show ?thesis by (simp add: evolves_refl)
  next
    case True
    with Suc.prems obtain bv d st1 where
      g: "get_slice fuel st self
            \<lparr>start = cache_len (delayed_outputs (nodes st self)),
               stop = cache_len (delayed_outputs (nodes st self))
                       + min (b - cache_len (delayed_outputs (nodes st self))) bs\<rparr> bv = Inr (d, st1)"
      and r: "generate_loop k fuel st1 self a b bs wv = Some (Inr st')"
      by (auto simp: Let_def split: sum.splits prod.splits)
    from get_slice_evolves[OF g] Suc.IH[OF r] show ?thesis by (rule evolves_trans)
  qed
qed

lemma generate_result:
  assumes "generate k fuel st self n bs wv = Some (Inr (d, st2))"
  obtains st1 where "evolves st st1"
    and "st2 = st1\<lparr>nodes := (nodes st1)(self := (nodes st1 self)
                 \<lparr>generate_index := generate_index (nodes st self) + n\<rparr>)\<rparr>"
    and "generate_loop k fuel st self (generate_index (nodes st self))
            (generate_index (nodes st self) + n)
            (case bs of None \<Rightarrow> n | Some s \<Rightarrow> if s = 0 then n else s)
            (normalize_data_dict wv n) = Some (Inr st1)"
    and "d = op_getitem st2 self \<lparr>start = generate_index (nodes st self),
                                   stop = generate_index (nodes st self) + n\<rparr>"
proof -
  from assms obtain st1 where l: "generate_loop k fuel st self (generate_index (nodes st self))
            (generate_index (nodes st self) + n)
            (case bs of None \<Rightarrow> n | Some s \<Rightarrow> if s = 0 then n else s)
            (normalize_data_dict wv n) = Some (Inr st1)"
    by (auto simp: generate_def Let_def split: option.splits sum.splits)
  with assms have s2: "st2 = st1\<lparr>nodes := (nodes st1)(self := (nodes st1 self)
                 \<lparr>generate_index := generate_index (nodes st self) + n\<rparr>)\<rparr>"
    and d: "d = op_getitem st2 self \<lparr>start = generate_index (nodes st self),
                                   stop = generate_index (nodes st self) + n\<rparr>"
    by (auto simp: generate_def Let_def)
  from generate_loop_evolves[OF l] s2 l d that show thesis by blast
qed

text \<open>Claim C10. \<open>get_slice\<close> changes the generate index and the version of no node, also when it
  appends a chunk; a \<open>generate(n)\<close> on the node after it sets the generate index to the old
  index plus \<open>n\<close>, and changes neither the generate index of another node nor any version;
  resetting the node adds one to its version.\<close>

theorem get_slice_keeps_counters:
  assumes g: "get_slice fuel st self sl wv = Inr (d, st')"
  shows "(\<forall>m. generate_index (nodes st' m) = generate_index (nodes st m)
              \<and> version st' m = version st m)
       \<and> (\<forall>k f n bs wv2 d2 st2.
             generate k f st' self n bs wv2 = Some (Inr (d2, st2)) \<longrightarrow>
               generate_index (nodes st2 self) = generate_index (nodes st self) + n
             \<and> (\<forall>m. m \<noteq> self \<longrightarrow> generate_index (nodes st2 m) = generate_index (nodes st m))
             \<and> (\<forall>m. version st2 m = version st m))
       \<and> version (reset_self st' self) self = Suc (version st self)"
proof (intro conjI allI impI)
  note e = get_slice_evolves[OF g]
  fix m
  show "generate_index (nodes st' m) = generate_index (nodes st m)" by (rule evolves_fields[OF e])
  show "version st' m = version st m" by (simp add: version_def evolves_fields[OF e])
next
  note e = get_slice_evolves[OF g]
  fix k f n bs wv2 d2 st2
  assume gen: "generate k f st' self n bs wv2 = Some (Inr (d2, st2))"
  from gen obtain st1 where e1: "evolves st' st1"
    and s2: "st2 = st1\<lparr>nodes := (nodes st1)(self := (nodes st1 self)
                 \<lparr>generate_index := generate_index (nodes st' self) + n\<rparr>)\<rparr>"
    by (rule generate_result)
  note e2 = evolves_trans[OF e e1]
  show "generate_index (nodes st2 self) = generate_index (nodes st self) + n"
    by (simp add: s2 evolves_fields[OF e])
  { fix m assume "m \<noteq> self"
    then show "generate_index (nodes st2 m) = generate_index (nodes st m)"
      by (simp add: s2 evolves_fields[OF e2]) }
  { fix m show "version st2 m = version st m"
      by (simp add: s2 version_def evolves_fields[OF e2]) }
next
  note e = get_slice_evolves[OF g]
  show "version (reset_self st' self) self = Suc (version st self)"
    by (simp add: reset_self_def version_def cache_reset_def Let_def evolves_fields[OF e]
        split: prod.splits)
qed

lemma get_slice_cached:
  "\<not> cache_len (delayed_outputs (nodes st self)) < stop sl \<Longrightarrow>
     get_slice (Suc fuel) st self sl wv = Inr (op_getitem st self sl, st)"
  by simp

lemma get_slice_extendE:
  assumes g: "get_slice fuel st self sl wv = Inr (d, st')"
    and lt: "cache_len (delayed_outputs (nodes st self)) < stop sl"
  obtains f inp st1 ss where "fuel = Suc f"
    and "create_input_dict
           (\<lambda>s p. get_slice f s p \<lparr>start = cache_len (delayed_outputs (nodes st self)), stop = stop sl\<rparr>
                      (as_pydata (normalize_data_dict wv
                          (stop sl - cache_len (delayed_outputs (nodes st self))))))
           st self \<lparr>start = cache_len (delayed_outputs (nodes st self)), stop = stop sl\<rparr>
          = Inr (inp, st1)"
    and "cache_len (delayed_outputs (nodes st1 self)) = cache_len (delayed_outputs (nodes st self))"
    and "st' = st1\<lparr>nodes := (nodes st1)(self := (nodes st1 self)\<lparr>delayed_outputs :=
             (delayed_outputs (nodes st1 self))\<lparr>entries := entries (delayed_outputs (nodes st1 self)) @
                [(create_delayed_output st1 self
                     \<lparr>start = cache_len (delayed_outputs (nodes st self)), stop = stop sl\<rparr> inp
                     (normalize_data_dict wv (stop sl - cache_len (delayed_outputs (nodes st self)))),
                  False)]\<rparr>\<rparr>),
            stores := ss\<rparr>"
    and "d = op_getitem st' self sl"
proof (cases fuel)
  case 0
  with g show ?thesis by simp
next
  case (Suc f)
  let ?l = "cache_len (delayed_outputs (nodes st self))"
  let ?wv = "normalize_data_dict wv (stop sl - ?l)"
  let ?new = "\<lparr>start = ?l, stop = stop sl\<rparr>"
  from g lt Suc obtain inp st1 where
    ci: "create_input_dict (\<lambda>s p. get_slice f s p ?new (as_pydata ?wv)) st self ?new
           = Inr (inp, st1)"
    by (auto simp: Let_def split: sum.splits)
  from g lt Suc ci obtain c ss where
    ap: "cache_append (delayed_outputs (nodes st1 self)) (stores st1)
           (create_delayed_output st1 self ?new inp ?wv) = (None, c, ss)"
    and st': "st' = st1\<lparr>nodes := (nodes st1)(self := (nodes st1 self)\<lparr>delayed_outputs := c\<rparr>),
                       stores := ss\<rparr>"
    and d: "d = op_getitem st' self sl"
    by (auto simp: Let_def split: sum.splits prod.splits option.splits)
  have sl: "get_key_slice (fst (create_delayed_output st1 self ?new inp ?wv)) = ?new"
    by (simp add: fst_create_delayed_output get_key_slice_def)
  from ap sl have len: "cache_len (delayed_outputs (nodes st1 self)) = ?l"
    by (auto simp: cache_append_def split: if_splits)
  from ap sl len have c: "c = (delayed_outputs (nodes st1 self))\<lparr>entries :=
        entries (delayed_outputs (nodes st1 self)) @
          [(create_delayed_output st1 self ?new inp ?wv, False)]\<rparr>"
    by (auto simp: cache_append_def split: if_splits)
  from that[OF Suc ci len st'[unfolded c] d] show thesis .
qed

lemma cache_len_append:
  "cache_len (c\<lparr>entries := entries c @ [(out, b)]\<rparr>) = cache_len c + slen (get_key_slice (fst out))"
  by (simp add: cache_len_def)

lemma cache_len_entries_append:
  "cache_len (c\<lparr>entries := entries c @ new\<rparr>) =
     cache_len c + sum_list (map (\<lambda>e. slen (get_key_slice (fst (fst e)))) new)"
  by (simp add: cache_len_def case_prod_unfold)

lemma get_slice_post:
  assumes g: "get_slice fuel st self sl wv = Inr (d, st')"
  shows "d = op_getitem st' self sl"
    and "stop sl \<le> cache_len (delayed_outputs (nodes st' self))"
    and "cache_len (delayed_outputs (nodes st self)) < stop sl \<Longrightarrow>
           cache_len (delayed_outputs (nodes st' self)) = stop sl"
    and "\<not> cache_len (delayed_outputs (nodes st self)) < stop sl \<Longrightarrow> st' = st"
proof -
  have *: "d = op_getitem st' self sl \<and> stop sl \<le> cache_len (delayed_outputs (nodes st' self))
      \<and> (cache_len (delayed_outputs (nodes st self)) < stop sl \<longrightarrow>
           cache_len (delayed_outputs (nodes st' self)) = stop sl)
      \<and> (\<not> cache_len (delayed_outputs (nodes st self)) < stop sl \<longrightarrow> st' = st)"
  proof (cases "cache_len (delayed_outputs (nodes st self)) < stop sl")
    case True
    from g True obtain inp st1 ss where
      len: "cache_len (delayed_outputs (nodes st1 self)) = cache_len (delayed_outputs (nodes st self))"
      and st': "st' = st1\<lparr>nodes := (nodes st1)(self := (nodes st1 self)\<lparr>delayed_outputs :=
             (delayed_outputs (nodes st1 self))\<lparr>entries := entries (delayed_outputs (nodes st1 self)) @
                [(create_delayed_output st1 self
                     \<lparr>start = cache_len (delayed_outputs (nodes st self)), stop = stop sl\<rparr> inp
                     (normalize_data_dict wv (stop sl - cache_len (delayed_outputs (nodes st self)))),
                  False)]\<rparr>\<rparr>),
            stores := ss\<rparr>"
      and d: "d = op_getitem st' self sl"
      by (rule get_slice_extendE)
    have "cache_len (delayed_outputs (nodes st' self)) = stop sl"
      by (simp add: st' cache_len_append len fst_create_delayed_output get_key_slice_def slen_def)
    with True d show ?thesis by simp
  next
    case False
    with g show ?thesis by (cases fuel) auto
  qed
  from * show "d = op_getitem st' self sl"
    and "stop sl \<le> cache_len (delayed_outputs (nodes st' self))"
    and "cache_len (delayed_outputs (nodes st self)) < stop sl \<Longrightarrow>
           cache_len (delayed_outputs (nodes st' self)) = stop sl"
    and "\<not> cache_len (delayed_outputs (nodes st self)) < stop sl \<Longrightarrow> st' = st"
    by blast+
qed

text \<open>Claim C2. After a \<open>get_slice\<close> that returned, the cache reaches the upper bound of the slice,
  the data returned are assembled from the chunks of the cache, and a second \<open>get_slice\<close> of
  the same slice returns the same delayed data and leaves the whole state as it was: no
  chunk is appended, no input dict is built, no sub-stream is claimed.\<close>

theorem get_slice_idempotent:
  assumes g: "get_slice fuel st self sl wv = Inr (d, st')"
  shows "stop sl \<le> cache_len (delayed_outputs (nodes st' self))
       \<and> d = cache_getitem (delayed_outputs (nodes st' self)) sl
       \<and> get_slice fuel st' self sl wv' = Inr (d, st')"
proof -
  note p = get_slice_post[OF g]
  from g obtain f where f: "fuel = Suc f" by (cases fuel) auto
  from p(2) have "\<not> cache_len (delayed_outputs (nodes st' self)) < stop sl" by simp
  then have "get_slice (Suc f) st' self sl wv' = Inr (op_getitem st' self sl, st')"
    by (rule get_slice_cached)
  with p(1,2) f show ?thesis by (simp add: op_getitem_def)
qed

subsection \<open>Contiguity of the cache\<close>

lemma covers_append:
  "covers ss a b \<Longrightarrow> b < c \<Longrightarrow> covers (ss @ [\<lparr>start = b, stop = c\<rparr>]) a c"
  by (induction ss arbitrary: a) auto

lemma covers_le: "covers ss a b \<Longrightarrow> a \<le> b"
  by (induction ss arbitrary: a) force+

lemma covers_sum: "covers ss a b \<Longrightarrow> sum_list (map slen ss) = b - a"
  by (induction ss arbitrary: a) (auto simp: slen_def)

lemma covers_union: "covers ss a b \<Longrightarrow> (\<Union>s\<in>set ss. {start s..<stop s}) = {a..<b}"
proof (induction ss arbitrary: a)
  case Nil
  then show ?case by simp
next
  case (Cons s ss)
  then have u: "(\<Union>s\<in>set ss. {start s..<stop s}) = {stop s..<b}" and sa: "start s = a"
    and lt: "start s < stop s" and le: "stop s \<le> b"
    using covers_le by auto
  have "(\<Union>s\<in>set (s # ss). {start s..<stop s}) = {a..<stop s} \<union> {stop s..<b}"
    using u sa by simp
  also have "\<dots> = {a..<b}" using lt le sa by auto
  finally show ?case .
qed

lemma covers_starts: "covers ss a b \<Longrightarrow> j < length ss \<Longrightarrow> a \<le> start (ss ! j)"
proof (induction ss arbitrary: a j)
  case Nil
  then show ?case by simp
next
  case (Cons s ss)
  show ?case
  proof (cases j)
    case 0
    with Cons.prems show ?thesis by simp
  next
    case (Suc j')
    with Cons.prems have "stop s \<le> start (ss ! j')" by (auto intro: Cons.IH)
    with Cons.prems Suc show ?thesis by simp
  qed
qed

lemma covers_ordered:
  "covers ss a b \<Longrightarrow> i < j \<Longrightarrow> j < length ss \<Longrightarrow> stop (ss ! i) \<le> start (ss ! j)"
proof (induction ss arbitrary: a i j)
  case Nil
  then show ?case by simp
next
  case (Cons s ss)
  from Cons.prems obtain j' where j: "j = Suc j'" by (cases j) auto
  show ?case
  proof (cases i)
    case 0
    with Cons.prems j show ?thesis by (auto intro: covers_starts)
  next
    case (Suc i')
    with Cons.prems j show ?thesis by (auto intro: Cons.IH)
  qed
qed

lemma covers_adjacent:
  "covers ss a b \<Longrightarrow> Suc i < length ss \<Longrightarrow> stop (ss ! i) = start (ss ! Suc i)"
proof (induction ss arbitrary: a i)
  case Nil
  then show ?case by simp
next
  case (Cons s ss)
  show ?case
  proof (cases i)
    case 0
    with Cons.prems show ?thesis by (cases ss) auto
  next
    case (Suc i')
    with Cons.prems show ?thesis by (auto intro: Cons.IH)
  qed
qed

lemma cache_len_sum: "cache_len c = sum_list (map slen (chunk_slices c))"
  by (simp add: cache_len_def chunk_slices_def comp_def case_prod_unfold)

lemma chunk_slices_append:
  "chunk_slices (c\<lparr>entries := entries c @ [(out, b)]\<rparr>) = chunk_slices c @ [get_key_slice (fst out)]"
  by (simp add: chunk_slices_def)

lemma cache_ok_append:
  assumes "cache_ok c" "cache_len c < stp"
  shows "cache_ok (c\<lparr>entries := entries c @ [(((k, \<lparr>start = cache_len c, stop = stp\<rparr>), d), b)]\<rparr>)"
  using assms covers_append[of "chunk_slices c" 0 "cache_len c" stp]
  by (simp add: cache_ok_def chunk_slices_append cache_len_append get_key_slice_def slen_def)

lemma get_slice_cache_ok:
  assumes "get_slice fuel st self sl wv = Inr (d, st')"
    and "\<forall>m. cache_ok (delayed_outputs (nodes st m))"
  shows "\<forall>m. cache_ok (delayed_outputs (nodes st' m))"
proof -
  let ?R = "\<lambda>s s'. (\<forall>m. cache_ok (delayed_outputs (nodes s m)))
                  \<longrightarrow> (\<forall>m. cache_ok (delayed_outputs (nodes s' m)))"
  have "?R st st'"
  proof (rule get_slice_rel[where R = ?R, OF _ _ _ _ assms(1)])
    fix s :: state and self k d ss stp
    assume "cache_len (delayed_outputs (nodes s self)) < stp"
    then show "?R s (s\<lparr>nodes := (nodes s)(self := (nodes s self)\<lparr>delayed_outputs :=
                  (delayed_outputs (nodes s self))\<lparr>entries :=
                     entries (delayed_outputs (nodes s self)) @
                       [(((k, \<lparr>start = cache_len (delayed_outputs (nodes s self)), stop = stp\<rparr>), d),
                         False)]\<rparr>\<rparr>),
                stores := ss\<rparr>)"
      by (auto simp: cache_ok_append)
  qed auto
  with assms(2) show ?thesis by blast
qed

lemma generate_loop_post:
  "generate_loop k fuel st self a b bs wv = Some (Inr st') \<Longrightarrow>
   \<forall>m. cache_ok (delayed_outputs (nodes st m)) \<Longrightarrow>
   cache_len (delayed_outputs (nodes st self)) \<le> b \<Longrightarrow>
   (\<forall>m. cache_ok (delayed_outputs (nodes st' m))) \<and> cache_len (delayed_outputs (nodes st' self)) = b"
proof (induction k arbitrary: st)
  case 0
  then show ?case by simp
next
  case (Suc k)
  let ?l = "cache_len (delayed_outputs (nodes st self))"
  show ?case
  proof (cases "?l < b")
    case False
    with Suc.prems show ?thesis by simp
  next
    case True
    let ?sl = "\<lparr>start = ?l, stop = ?l + min (b - ?l) bs\<rparr>"
    from Suc.prems(1) True obtain bv d st1 where
      g: "get_slice fuel st self ?sl bv = Inr (d, st1)"
      and r: "generate_loop k fuel st1 self a b bs wv = Some (Inr st')"
      by (auto simp: Let_def split: sum.splits prod.splits)
    from get_slice_cache_ok[OF g Suc.prems(2)]
    have ok1: "\<forall>m. cache_ok (delayed_outputs (nodes st1 m))" .
    have "cache_len (delayed_outputs (nodes st1 self)) \<le> b"
    proof (cases "?l < stop ?sl")
      case True
      from get_slice_post(3)[OF g True] show ?thesis by simp
    next
      case False
      from get_slice_post(4)[OF g False] Suc.prems(3) show ?thesis by simp
    qed
    from Suc.IH[OF r ok1 this] show ?thesis .
  qed
qed

lemma generate_post:
  assumes gen: "generate k fuel st self n bs wv = Some (Inr (d, st'))"
    and ok: "\<forall>m. cache_ok (delayed_outputs (nodes st m))"
    and gi: "cache_len (delayed_outputs (nodes st self)) = generate_index (nodes st self)"
    and n: "0 \<le> n"
  shows "(\<forall>m. cache_ok (delayed_outputs (nodes st' m)))
       \<and> cache_len (delayed_outputs (nodes st' self)) = generate_index (nodes st' self)"
proof -
  from gen obtain st1 where
    s2: "st' = st1\<lparr>nodes := (nodes st1)(self := (nodes st1 self)
                 \<lparr>generate_index := generate_index (nodes st self) + n\<rparr>)\<rparr>"
    and l: "generate_loop k fuel st self (generate_index (nodes st self))
            (generate_index (nodes st self) + n)
            (case bs of None \<Rightarrow> n | Some s \<Rightarrow> if s = 0 then n else s)
            (normalize_data_dict wv n) = Some (Inr st1)"
    by (rule generate_result)
  from gi n have "cache_len (delayed_outputs (nodes st self)) \<le> generate_index (nodes st self) + n"
    by simp
  from generate_loop_post[OF l ok this] show ?thesis by (simp add: s2)
qed

lemma evolves_len_mono:
  assumes "evolves st st'"
  shows "cache_len (delayed_outputs (nodes st m)) \<le> cache_len (delayed_outputs (nodes st' m))"
proof -
  from assms obtain new where n: "nodes st' m = (nodes st m)\<lparr>delayed_outputs :=
               (delayed_outputs (nodes st m))\<lparr>entries :=
                  entries (delayed_outputs (nodes st m)) @ new\<rparr>\<rparr>"
    and pos: "\<forall>e\<in>set new. 0 < slen (get_key_slice (fst (fst e)))"
    unfolding evolves_def by blast
  from pos have "0 \<le> sum_list (map (\<lambda>e. slen (get_key_slice (fst (fst e)))) new)"
    by (intro sum_list_nonneg) auto
  then show ?thesis by (simp add: n cache_len_entries_append)
qed

lemma generate_loop_inv:
  "generate_loop k fuel st self a b bs wv = Some (Inr st') \<Longrightarrow>
   \<forall>m. cache_ok (delayed_outputs (nodes st m)) \<Longrightarrow>
   (\<forall>m. cache_ok (delayed_outputs (nodes st' m))) \<and> b \<le> cache_len (delayed_outputs (nodes st' self))"
proof (induction k arbitrary: st)
  case 0
  then show ?case by simp
next
  case (Suc k)
  let ?l = "cache_len (delayed_outputs (nodes st self))"
  show ?case
  proof (cases "?l < b")
    case False
    with Suc.prems show ?thesis by simp
  next
    case True
    let ?sl = "\<lparr>start = ?l, stop = ?l + min (b - ?l) bs\<rparr>"
    from Suc.prems(1) True obtain bv d st1 where
      g: "get_slice fuel st self ?sl bv = Inr (d, st1)"
      and r: "generate_loop k fuel st1 self a b bs wv = Some (Inr st')"
      by (auto simp: Let_def split: sum.splits prod.splits)
    from get_slice_cache_ok[OF g Suc.prems(2)]
    have ok1: "\<forall>m. cache_ok (delayed_outputs (nodes st1 m))" .
    from Suc.IH[OF r ok1] show ?thesis .
  qed
qed

lemma generate_inv:
  assumes gen: "generate k fuel st self n bs wv = Some (Inr (d, st'))"
    and ok: "\<forall>m. cache_ok (delayed_outputs (nodes st m))"
    and le: "\<forall>m. generate_index (nodes st m) \<le> cache_len (delayed_outputs (nodes st m))"
  shows "(\<forall>m. cache_ok (delayed_outputs (nodes st' m)))
       \<and> (\<forall>m. generate_index (nodes st' m) \<le> cache_len (delayed_outputs (nodes st' m)))"
proof -
  from gen obtain st1 where e: "evolves st st1"
    and s2: "st' = st1\<lparr>nodes := (nodes st1)(self := (nodes st1 self)
                 \<lparr>generate_index := generate_index (nodes st self) + n\<rparr>)\<rparr>"
    and l: "generate_loop k fuel st self (generate_index (nodes st self))
            (generate_index (nodes st self) + n)
            (case bs of None \<Rightarrow> n | Some s \<Rightarrow> if s = 0 then n else s)
            (normalize_data_dict wv n) = Some (Inr st1)"
    by (rule generate_result)
  from generate_loop_inv[OF l ok]
  have ok1: "\<forall>m. cache_ok (delayed_outputs (nodes st1 m))"
    and b: "generate_index (nodes st self) + n \<le> cache_len (delayed_outputs (nodes st1 self))"
    by simp_all
  have "generate_index (nodes st' m) \<le> cache_len (delayed_outputs (nodes st' m))" for m
  proof (cases "m = self")
    case True
    with b show ?thesis by (simp add: s2)
  next
    case False
    from le have "generate_index (nodes st m) \<le> cache_len (delayed_outputs (nodes st m))" by blast
    also have "\<dots> \<le> cache_len (delayed_outputs (nodes st1 m))" using e by (rule evolves_len_mono)
    finally show ?thesis using False by (simp add: s2 evolves_fields(1)[OF e])
  qed
  with ok1 show ?thesis by (simp add: s2)
qed

lemma generate_calls_inv:
  "generate_calls k fuel st calls = Some (Inr st') \<Longrightarrow>
   \<forall>m. cache_ok (delayed_outputs (nodes st m)) \<Longrightarrow>
   \<forall>m. generate_index (nodes st m) \<le> cache_len (delayed_outputs (nodes st m)) \<Longrightarrow>
   (\<forall>m. cache_ok (delayed_outputs (nodes st' m)))
     \<and> (\<forall>m. generate_index (nodes st' m) \<le> cache_len (delayed_outputs (nodes st' m)))"
proof (induction calls arbitrary: st)
  case Nil
  then show ?case by simp
next
  case (Cons c calls)
  obtain self n bs wv where c: "c = (self, n, bs, wv)" by (cases c)
  from Cons.prems(1) c obtain d st1 where
    g: "generate k fuel st self n bs wv = Some (Inr (d, st1))"
    and r: "generate_calls k fuel st1 calls = Some (Inr st')"
    by (auto split: option.splits sum.splits)
  from generate_inv[OF g Cons.prems(2,3)] Cons.IH[OF r] show ?case by blast
qed

lemma generate_calls_own:
  "generate_calls k fuel st calls = Some (Inr st') \<Longrightarrow>
   \<forall>m. cache_ok (delayed_outputs (nodes st m)) \<Longrightarrow>
   cache_len (delayed_outputs (nodes st self)) = generate_index (nodes st self) \<Longrightarrow>
   \<forall>c\<in>set calls. fst c = self \<and> 0 \<le> fst (snd c) \<Longrightarrow>
   cache_len (delayed_outputs (nodes st' self)) = generate_index (nodes st' self)"
proof (induction calls arbitrary: st)
  case Nil
  then show ?case by simp
next
  case (Cons c calls)
  obtain m n bs wv where c: "c = (m, n, bs, wv)" by (cases c)
  from Cons.prems(4) c have m: "m = self" and n: "0 \<le> n" by simp_all
  from Cons.prems(1) c m obtain d st1 where
    g: "generate k fuel st self n bs wv = Some (Inr (d, st1))"
    and r: "generate_calls k fuel st1 calls = Some (Inr st')"
    by (auto split: option.splits sum.splits)
  from generate_post[OF g Cons.prems(2,3) n] Cons.prems(4) Cons.IH[OF r]
  show ?case by simp
qed

lemma generate_loop_ends:
  "(cache_len (delayed_outputs (nodes st self)) < b \<longrightarrow> 0 < bs) \<Longrightarrow>
   nat (b - cache_len (delayed_outputs (nodes st self))) < k \<Longrightarrow>
   generate_loop k fuel st self a b bs wv \<noteq> None"
proof (induction k arbitrary: st)
  case 0
  then show ?case by simp
next
  case (Suc k)
  let ?l = "cache_len (delayed_outputs (nodes st self))"
  show ?case
  proof (cases "?l < b")
    case False
    then show ?thesis by simp
  next
    case True
    with Suc.prems(1) have bs: "0 < bs" by simp
    let ?nb = "min (b - ?l) bs"
    let ?sl = "\<lparr>start = ?l, stop = ?l + ?nb\<rparr>"
    from True bs have nb: "0 < ?nb" by simp
    show ?thesis
    proof (cases "batch_values wv \<lparr>start = ?l - a, stop = ?l - a + ?nb\<rparr>")
      case (Inl e)
      with True show ?thesis by (simp add: Let_def)
    next
      case (Inr bv)
      show ?thesis
      proof (cases "get_slice fuel st self ?sl bv")
        case (Inl e)
        with True Inr show ?thesis by (simp add: Let_def)
      next
        case r: (Inr res)
        obtain d st1 where res: "res = (d, st1)" by (cases res)
        from nb have lt: "?l < stop ?sl" by simp
        from get_slice_post(3)[OF r[unfolded res] lt]
        have len1: "cache_len (delayed_outputs (nodes st1 self)) = ?l + ?nb" by simp
        have p1: "cache_len (delayed_outputs (nodes st1 self)) < b \<longrightarrow> 0 < bs" using bs by simp
        have p2: "nat (b - cache_len (delayed_outputs (nodes st1 self))) < k"
          using Suc.prems(2) True nb unfolding len1 by linarith
        from Suc.IH[OF p1 p2] True Inr r res show ?thesis by (simp add: Let_def)
      qed
    qed
  qed
qed

lemma generate_ends:
  assumes le: "generate_index (nodes st self) \<le> cache_len (delayed_outputs (nodes st self))"
    and bs: "\<forall>b. batch_size = Some b \<longrightarrow> 0 \<le> b"
    and k: "nat n < k"
  shows "generate k fuel st self n batch_size with_values \<noteq> None"
proof -
  let ?a = "generate_index (nodes st self)"
  let ?bs = "(case batch_size of None \<Rightarrow> n | Some s \<Rightarrow> if s = 0 then n else s)"
  have p1: "cache_len (delayed_outputs (nodes st self)) < ?a + n \<longrightarrow> 0 < ?bs"
    using le bs by (auto split: option.splits)
  have p2: "nat (?a + n - cache_len (delayed_outputs (nodes st self))) < k"
    using le k by linarith
  from generate_loop_ends[OF p1 p2]
  show ?thesis by (auto simp: generate_def Let_def split: option.splits sum.splits)
qed

lemma generate_calls_end:
  "\<forall>m. cache_ok (delayed_outputs (nodes st m)) \<Longrightarrow>
   \<forall>m. generate_index (nodes st m) \<le> cache_len (delayed_outputs (nodes st m)) \<Longrightarrow>
   \<forall>(self, n, batch_size, with_values)\<in>set calls.
      nat n < k \<and> (\<forall>b. batch_size = Some b \<longrightarrow> 0 \<le> b) \<Longrightarrow>
   generate_calls k fuel st calls \<noteq> None"
proof (induction calls arbitrary: st)
  case Nil
  then show ?case by simp
next
  case (Cons c calls)
  obtain self n bs wv where c: "c = (self, n, bs, wv)" by (cases c)
  from Cons.prems(3) c have k: "nat n < k" and b: "\<forall>b. bs = Some b \<longrightarrow> 0 \<le> b" by simp_all
  from Cons.prems(2) have "generate_index (nodes st self) \<le> cache_len (delayed_outputs (nodes st self))"
    by blast
  from generate_ends[OF this b k] obtain r where r: "generate k fuel st self n bs wv = Some r"
    by blast
  show ?case
  proof (cases r)
    case (Inl e)
    with r c show ?thesis by simp
  next
    case (Inr res)
    obtain d st1 where res: "res = (d, st1)" by (cases res)
    from generate_inv[OF r[unfolded Inr res] Cons.prems(1,2)] Cons.prems(3)
    have "generate_calls k fuel st1 calls \<noteq> None" by (intro Cons.IH) auto
    with r Inr res c show ?thesis by simp
  qed
qed

text \<open>Claim C1, as amended. Take a state where the chunks of every cache cover the indices from 0
  to the length of the cache and no generate index is beyond the length of its cache (a
  fresh graph is such a state), and any sequence of \<open>generate\<close> calls, on any nodes, with batch
  sizes that are not negative. Within a loop bound above the numbers of samples, every call
  ends, with a result or an exception. If none raises, then afterwards the chunks of every
  cache are non-empty, contiguous and non-overlapping, the union of their ranges is exactly
  the indices from 0 to the length of the cache, and the generate index of the node is at
  most that length; it is that length for a node on which all the calls were made, with
  numbers of samples that are not negative, if it was so before. And
  \<open>DelayedOutputCache.append\<close> raises a ValueError and leaves the cache and the stores as they
  were whenever the chunk does not start at the length of the cache.\<close>

theorem generate_keeps_cache_contiguous:
  assumes inv: "\<forall>m. covers (chunk_slices (delayed_outputs (nodes st m))) 0
                      (cache_len (delayed_outputs (nodes st m)))"
    and le: "\<forall>m. generate_index (nodes st m) \<le> cache_len (delayed_outputs (nodes st m))"
    and sizes: "\<forall>(self, n, batch_size, with_values)\<in>set calls.
                  nat n < k \<and> (\<forall>b. batch_size = Some b \<longrightarrow> 0 \<le> b)"
  shows "generate_calls k fuel st calls \<noteq> None
       \<and> (\<forall>st'. generate_calls k fuel st calls = Some (Inr st') \<longrightarrow>
            (\<forall>m. covers (chunk_slices (delayed_outputs (nodes st' m))) 0
                     (cache_len (delayed_outputs (nodes st' m)))
                \<and> (\<Union>s\<in>set (chunk_slices (delayed_outputs (nodes st' m))). {start s..<stop s})
                     = {0..<cache_len (delayed_outputs (nodes st' m))}
                \<and> (\<forall>i j. i < j \<and> j < length (chunk_slices (delayed_outputs (nodes st' m))) \<longrightarrow>
                       stop (chunk_slices (delayed_outputs (nodes st' m)) ! i)
                         \<le> start (chunk_slices (delayed_outputs (nodes st' m)) ! j))
                \<and> (\<forall>i. Suc i < length (chunk_slices (delayed_outputs (nodes st' m))) \<longrightarrow>
                       stop (chunk_slices (delayed_outputs (nodes st' m)) ! i)
                         = start (chunk_slices (delayed_outputs (nodes st' m)) ! Suc i))
                \<and> generate_index (nodes st' m) \<le> cache_len (delayed_outputs (nodes st' m))
                \<and> ((\<forall>c\<in>set calls. fst c = m \<and> 0 \<le> fst (snd c))
                     \<and> cache_len (delayed_outputs (nodes st m)) = generate_index (nodes st m)
                   \<longrightarrow> cache_len (delayed_outputs (nodes st' m)) = generate_index (nodes st' m))))
       \<and> (\<forall>c ss out. cache_len c \<noteq> start (get_key_slice (fst out)) \<longrightarrow>
              cache_append c ss out = (Some (ValueError ''Appending a non matching slice''), c, ss))"
proof (intro conjI allI impI)
  from inv have ok: "\<forall>m. cache_ok (delayed_outputs (nodes st m))" by (simp add: cache_ok_def)
  show "generate_calls k fuel st calls \<noteq> None"
    using ok le sizes by (rule generate_calls_end)
next
  fix st' m
  assume run: "generate_calls k fuel st calls = Some (Inr st')"
  from inv have ok: "\<forall>m. cache_ok (delayed_outputs (nodes st m))" by (simp add: cache_ok_def)
  from generate_calls_inv[OF run ok le]
  have ok': "\<forall>m. cache_ok (delayed_outputs (nodes st' m))"
    and le': "\<forall>m. generate_index (nodes st' m) \<le> cache_len (delayed_outputs (nodes st' m))"
    by simp_all
  from ok' show c: "covers (chunk_slices (delayed_outputs (nodes st' m))) 0
                     (cache_len (delayed_outputs (nodes st' m)))"
    by (simp add: cache_ok_def)
  from covers_union[OF c]
  show "(\<Union>s\<in>set (chunk_slices (delayed_outputs (nodes st' m))). {start s..<stop s})
                     = {0..<cache_len (delayed_outputs (nodes st' m))}" .
  from le' show "generate_index (nodes st' m) \<le> cache_len (delayed_outputs (nodes st' m))" by blast
  { fix i j
    assume "i < j \<and> j < length (chunk_slices (delayed_outputs (nodes st' m)))"
    then show "stop (chunk_slices (delayed_outputs (nodes st' m)) ! i)
                         \<le> start (chunk_slices (delayed_outputs (nodes st' m)) ! j)"
      using covers_ordered[OF c] by blast }
  { fix i
    assume "Suc i < length (chunk_slices (delayed_outputs (nodes st' m)))"
    then show "stop (chunk_slices (delayed_outputs (nodes st' m)) ! i)
                         = start (chunk_slices (delayed_outputs (nodes st' m)) ! Suc i)"
      using covers_adjacent[OF c] by blast }
  { assume a: "(\<forall>c\<in>set calls. fst c = m \<and> 0 \<le> fst (snd c))
                     \<and> cache_len (delayed_outputs (nodes st m)) = generate_index (nodes st m)"
    then show "cache_len (delayed_outputs (nodes st' m)) = generate_index (nodes st' m)"
      using generate_calls_own[OF run ok] by blast }
next
  fix c ss and out :: delayed_output
  assume "cache_len c \<noteq> start (get_key_slice (fst out))"
  then show "cache_append c ss out = (Some (ValueError ''Appending a non matching slice''), c, ss)"
    by (simp add: cache_append_def)
qed

text \<open>Claim C1, as stated, fails for the parents of a node that generates: after \<open>generate(2)\<close>
  on the summary of the fresh graph of \<open>x\<close>, \<open>y\<close> and \<open>s\<close>, the cache of \<open>x\<close> holds the chunk of the
  range from 0 to 2, while the generate index of \<open>x\<close> is still 0: \<open>get_slice\<close>, which the summary
  calls on its parents, does not update it.\<close>

theorem parent_cache_outruns_generate_index:
  "(case generate_calls 2 2 family_state [(2, 2, None, None)] of
      Some (Inr st') \<Rightarrow>
        chunk_slices (delayed_outputs (nodes st' 0)) = [\<lparr>start = 0, stop = 2\<rparr>]
      \<and> generate_index (nodes st' 0) = 0
      \<and> \<not> covers (chunk_slices (delayed_outputs (nodes st' 0))) 0 (generate_index (nodes st' 0))
      \<and> chunk_slices (delayed_outputs (nodes st' 2)) = [\<lparr>start = 0, stop = 2\<rparr>]
      \<and> generate_index (nodes st' 2) = 2
    | _ \<Rightarrow> False)"
  by code_simp

subsection \<open>Reset\<close>

lemma reset_frame_refl: "reset_frame s s"
  by (simp add: reset_frame_def)

lemma op_id_cong:
  "tasks s' = tasks s \<Longrightarrow> nodes s' n = nodes s n \<Longrightarrow> op_id s' n = op_id s n"
  by (simp add: op_id_def version_def)

lemma reset_frame_trans:
  assumes a: "reset_frame s t" and b: "reset_frame t u"
  shows "reset_frame s u"
  unfolding reset_frame_def
proof (intro conjI allI)
  show "tasks u = tasks s" using a b by (simp add: reset_frame_def)
  fix x show "set (stores u x) \<subseteq> set (stores s x)"
    using a b unfolding reset_frame_def by blast
next
  fix n
  show "name (nodes u n) = name (nodes s n)" using a b by (simp add: reset_frame_def)
  show "children (nodes u n) = children (nodes s n)" using a b by (simp add: reset_frame_def)
  show "inference_task (nodes u n) = inference_task (nodes s n)" using a b by (simp add: reset_frame_def)
  show "store (delayed_outputs (nodes u n)) = store (delayed_outputs (nodes s n))"
    using a b by (simp add: reset_frame_def)
  have st: "num_resets (nodes s n) \<le> num_resets (nodes t n)" using a by (simp add: reset_frame_def)
  have tu: "num_resets (nodes t n) \<le> num_resets (nodes u n)" using b by (simp add: reset_frame_def)
  from st tu show "num_resets (nodes s n) \<le> num_resets (nodes u n)" by simp
  have eq_st: "num_resets (nodes t n) = num_resets (nodes s n) \<Longrightarrow> nodes t n = nodes s n"
    using a by (simp add: reset_frame_def)
  have eq_tu: "num_resets (nodes u n) = num_resets (nodes t n) \<Longrightarrow> nodes u n = nodes t n"
    using b by (simp add: reset_frame_def)
  show "num_resets (nodes u n) = num_resets (nodes s n) \<longrightarrow> nodes u n = nodes s n"
  proof
    assume "num_resets (nodes u n) = num_resets (nodes s n)"
    with st tu have "num_resets (nodes t n) = num_resets (nodes s n)"
      "num_resets (nodes u n) = num_resets (nodes t n)" by simp_all
    with eq_st eq_tu show "nodes u n = nodes s n" by simp
  qed
  show "num_resets (nodes s n) < num_resets (nodes u n) \<longrightarrow>
                   generate_index (nodes u n) = 0
                 \<and> entries (delayed_outputs (nodes u n)) = []
                 \<and> node_id (delayed_outputs (nodes u n)) = op_id u n
                 \<and> (\<forall>x. store (delayed_outputs (nodes s n)) = Some x \<longrightarrow>
                        (\<forall>k\<in>set (stores u x). fst k \<noteq> node_id (delayed_outputs (nodes s n))))"
  proof
    assume lt: "num_resets (nodes s n) < num_resets (nodes u n)"
    show "generate_index (nodes u n) = 0
                 \<and> entries (delayed_outputs (nodes u n)) = []
                 \<and> node_id (delayed_outputs (nodes u n)) = op_id u n
                 \<and> (\<forall>x. store (delayed_outputs (nodes s n)) = Some x \<longrightarrow>
                        (\<forall>k\<in>set (stores u x). fst k \<noteq> node_id (delayed_outputs (nodes s n))))"
    proof (cases "num_resets (nodes t n) < num_resets (nodes u n)")
      case True
      with b have u: "generate_index (nodes u n) = 0" "entries (delayed_outputs (nodes u n)) = []"
        "node_id (delayed_outputs (nodes u n)) = op_id u n"
        and pu: "\<forall>x. store (delayed_outputs (nodes t n)) = Some x \<longrightarrow>
                        (\<forall>k\<in>set (stores u x). fst k \<noteq> node_id (delayed_outputs (nodes t n)))"
        by (simp_all add: reset_frame_def)
      have "\<forall>x. store (delayed_outputs (nodes s n)) = Some x \<longrightarrow>
                        (\<forall>k\<in>set (stores u x). fst k \<noteq> node_id (delayed_outputs (nodes s n)))"
      proof (cases "num_resets (nodes s n) < num_resets (nodes t n)")
        case True
        with a have "\<forall>x. store (delayed_outputs (nodes s n)) = Some x \<longrightarrow>
                        (\<forall>k\<in>set (stores t x). fst k \<noteq> node_id (delayed_outputs (nodes s n)))"
          by (simp add: reset_frame_def)
        moreover from b have "\<forall>x. set (stores u x) \<subseteq> set (stores t x)" by (simp add: reset_frame_def)
        ultimately show ?thesis by blast
      next
        case False
        with st have "nodes t n = nodes s n" by (intro eq_st) simp
        with pu show ?thesis by simp
      qed
      with u show ?thesis by simp
    next
      case False
      with tu have e: "nodes u n = nodes t n" by (intro eq_tu) simp
      from False lt tu have lt': "num_resets (nodes s n) < num_resets (nodes t n)" by simp
      with a have t: "generate_index (nodes t n) = 0" "entries (delayed_outputs (nodes t n)) = []"
        "node_id (delayed_outputs (nodes t n)) = op_id t n"
        and pt: "\<forall>x. store (delayed_outputs (nodes s n)) = Some x \<longrightarrow>
                        (\<forall>k\<in>set (stores t x). fst k \<noteq> node_id (delayed_outputs (nodes s n)))"
        by (simp_all add: reset_frame_def)
      from b have tk: "tasks u = tasks t" by (simp add: reset_frame_def)
      from b have "\<forall>x. set (stores u x) \<subseteq> set (stores t x)" by (simp add: reset_frame_def)
      with pt have "\<forall>x. store (delayed_outputs (nodes s n)) = Some x \<longrightarrow>
                        (\<forall>k\<in>set (stores u x). fst k \<noteq> node_id (delayed_outputs (nodes s n)))"
        by blast
      with t e op_id_cong[OF tk e] show ?thesis by simp
    qed
  qed
qed

lemma reset_self_rel:
  "reset_frame st (reset_self st self)"
  "num_resets (nodes st self) < num_resets (nodes (reset_self st self) self)"
  by (auto simp: reset_frame_def reset_self_def cache_reset_def store_reset_def op_id_def
      version_def Let_def split: option.splits)

lemma resets_rel:
  assumes step: "\<And>s c s'. r s c = Inr s' \<Longrightarrow> reset_frame s s'"
  shows "resets r cs st = Inr st' \<Longrightarrow> reset_frame st st'"
proof (induction cs arbitrary: st)
  case Nil
  then show ?case by (simp add: reset_frame_refl)
next
  case (Cons c cs)
  from Cons.prems obtain st1 where a: "r st c = Inr st1" and b: "resets r cs st1 = Inr st'"
    by (auto split: sum.splits)
  from step[OF a] Cons.IH[OF b] show ?case by (rule reset_frame_trans)
qed

lemma reset_frame_main:
  "reset fuel st self p = Inr st' \<Longrightarrow>
     reset_frame st st' \<and> num_resets (nodes st self) < num_resets (nodes st' self)"
proof (induction fuel arbitrary: st self p st')
  case 0
  then show ?case by simp
next
  case (Suc fuel)
  from Suc.prems obtain st1 where
    a: "(if p then resets (\<lambda>s c. reset fuel s c True) (children (nodes st self)) st else Inr st)
          = Inr st1"
    and b: "st' = reset_self st1 self"
    by (auto split: sum.splits)
  have r1: "reset_frame st st1"
  proof (cases p)
    case True
    with a have "resets (\<lambda>s c. reset fuel s c True) (children (nodes st self)) st = Inr st1" by simp
    then show ?thesis by (rule resets_rel[rotated]) (use Suc.IH in blast)
  next
    case False
    with a show ?thesis by (simp add: reset_frame_refl)
  qed
  have r2: "reset_frame st1 st'" unfolding b by (rule reset_self_rel)
  have "num_resets (nodes st self) \<le> num_resets (nodes st1 self)"
    using r1 by (simp add: reset_frame_def)
  moreover have "num_resets (nodes st1 self) < num_resets (nodes st' self)"
    unfolding b by (rule reset_self_rel)
  ultimately show ?case using reset_frame_trans[OF r1 r2] by simp
qed

lemma reset_frame_child_rel: "reset_frame s s' \<Longrightarrow> child_rel (nodes s') = child_rel (nodes s)"
  by (simp add: reset_frame_def child_rel_def)

lemma resets_reach:
  assumes ih: "\<And>s c m s'. reset fuel s c True = Inr s' \<Longrightarrow> (c, m) \<in> (child_rel (nodes s))\<^sup>* \<Longrightarrow>
                 num_resets (nodes s m) < num_resets (nodes s' m)"
  shows "resets (\<lambda>s c. reset fuel s c True) cs s0 = Inr s1 \<Longrightarrow> c \<in> set cs \<Longrightarrow>
         (c, m) \<in> (child_rel (nodes s0))\<^sup>* \<Longrightarrow> num_resets (nodes s0 m) < num_resets (nodes s1 m)"
proof (induction cs arbitrary: s0)
  case Nil
  then show ?case by simp
next
  case (Cons c0 cs)
  from Cons.prems(1) obtain sa where a: "reset fuel s0 c0 True = Inr sa"
    and b: "resets (\<lambda>s c. reset fuel s c True) cs sa = Inr s1"
    by (auto split: sum.splits)
  from reset_frame_main[OF a] have ra: "reset_frame s0 sa" by simp
  have rb: "reset_frame sa s1" using b by (rule resets_rel[rotated]) (use reset_frame_main in blast)
  show ?case
  proof (cases "c = c0")
    case True
    with ih[OF a] Cons.prems(3) have "num_resets (nodes s0 m) < num_resets (nodes sa m)" by simp
    moreover from rb have "num_resets (nodes sa m) \<le> num_resets (nodes s1 m)"
      by (simp add: reset_frame_def)
    ultimately show ?thesis by simp
  next
    case False
    with Cons.prems(2) have "c \<in> set cs" by simp
    moreover from Cons.prems(3) have "(c, m) \<in> (child_rel (nodes sa))\<^sup>*"
      by (simp add: reset_frame_child_rel[OF ra])
    ultimately have "num_resets (nodes sa m) < num_resets (nodes s1 m)"
      using Cons.IH[OF b] by blast
    moreover from ra have "num_resets (nodes s0 m) \<le> num_resets (nodes sa m)"
      by (simp add: reset_frame_def)
    ultimately show ?thesis by simp
  qed
qed

lemma reset_reach:
  "reset fuel st self True = Inr st' \<Longrightarrow> (self, m) \<in> (child_rel (nodes st))\<^sup>* \<Longrightarrow>
     num_resets (nodes st m) < num_resets (nodes st' m)"
proof (induction fuel arbitrary: st self m st')
  case 0
  then show ?case by simp
next
  case (Suc fuel)
  from Suc.prems(1) obtain st1 where
    a: "resets (\<lambda>s c. reset fuel s c True) (children (nodes st self)) st = Inr st1"
    and b: "st' = reset_self st1 self"
    by (auto split: sum.splits)
  have r2: "reset_frame st1 st'" unfolding b by (rule reset_self_rel)
  from Suc.prems(2) show ?case
  proof (cases rule: converse_rtranclE[case_names base step])
    case base
    with reset_frame_main[OF Suc.prems(1)] show ?thesis by simp
  next
    case (step c)
    then have cin: "c \<in> set (children (nodes st self))" by (simp add: child_rel_def)
    have "num_resets (nodes st m) < num_resets (nodes st1 m)"
      using a cin step(2) by (rule resets_reach[rotated]) (use Suc.IH in blast)
    moreover from r2 have "num_resets (nodes st1 m) \<le> num_resets (nodes st' m)"
      by (simp add: reset_frame_def)
    ultimately show ?thesis by simp
  qed
qed

lemma descendants_sound:
  "descendants f h n = Inr ds \<Longrightarrow> m \<in> set ds \<Longrightarrow> (n, m) \<in> (child_rel h)\<^sup>+"
proof (induction f arbitrary: n ds m)
  case 0
  then show ?case by simp
next
  case (Suc f)
  from Suc.prems(1) have F: "fold (extend_with (descendants f h)) (children (h n)) (Inr (children (h n))) = Inr ds"
    by (simp only: descendants_Suc)
  from fold_extend_sub[OF F Suc.prems(2)] show ?case
  proof
    assume "m \<in> set (children (h n))"
    then show ?thesis by (simp add: child_rel_def r_into_trancl')
  next
    assume "\<exists>c\<in>set (children (h n)). \<exists>ms. descendants f h c = Inr ms \<and> m \<in> set ms"
    then obtain c ms where c: "c \<in> set (children (h n))" "descendants f h c = Inr ms" "m \<in> set ms" by blast
    from Suc.IH[OF c(2,3)] have "(c, m) \<in> (child_rel h)\<^sup>+" .
    moreover from c(1) have "(n, c) \<in> child_rel h" by (simp add: child_rel_def)
    ultimately show ?thesis by (rule trancl_into_trancl2[rotated])
  qed
qed

lemma resets_total:
  assumes ih: "\<And>s c. \<forall>n c. c \<in> set (children (nodes s n)) \<longrightarrow> rank c < rank n \<Longrightarrow> rank c < fuel \<Longrightarrow>
                  \<exists>s'. reset fuel s c True = Inr s'"
  shows "\<forall>n c. c \<in> set (children (nodes s0 n)) \<longrightarrow> rank c < rank n \<Longrightarrow>
         \<forall>c\<in>set cs. rank c < fuel \<Longrightarrow>
         \<exists>s1. resets (\<lambda>s c. reset fuel s c True) cs s0 = Inr s1"
proof (induction cs arbitrary: s0)
  case Nil
  then show ?case by simp
next
  case (Cons c0 cs)
  from Cons.prems have "rank c0 < fuel" by simp
  from ih[OF Cons.prems(1) this] obtain sa where a: "reset fuel s0 c0 True = Inr sa" by blast
  from reset_frame_main[OF a] have "\<forall>n. children (nodes sa n) = children (nodes s0 n)"
    by (simp add: reset_frame_def)
  with Cons.prems(1) have "\<forall>n c. c \<in> set (children (nodes sa n)) \<longrightarrow> rank c < rank n" by simp
  from Cons.IH[OF this] Cons.prems(2) obtain s1 where
    "resets (\<lambda>s c. reset fuel s c True) cs sa = Inr s1" by auto
  with a show ?case by simp
qed

lemma reset_total:
  "\<forall>n c. c \<in> set (children (nodes st n)) \<longrightarrow> rank c < rank n \<Longrightarrow> rank self < fuel \<Longrightarrow>
     \<exists>st'. reset fuel st self p = Inr st'"
proof (induction fuel arbitrary: st self p)
  case 0
  then show ?case by simp
next
  case (Suc fuel)
  have "\<forall>c\<in>set (children (nodes st self)). rank c < fuel"
  proof
    fix c assume "c \<in> set (children (nodes st self))"
    with Suc.prems(1) have "rank c < rank self" by blast
    with Suc.prems(2) show "rank c < fuel" by simp
  qed
  with resets_total[where fuel=fuel and rank=rank and ?s0.0=st, OF Suc.IH Suc.prems(1)]
  obtain s1 where "resets (\<lambda>s c. reset fuel s c True) (children (nodes st self)) st = Inr s1"
    by blast
  then show ?case by simp
qed

text \<open>What \<open>reset(propagate=True)\<close> establishes. On a graph whose children edges are acyclic,
  run within a recursion limit above the rank of the node, it returns, and afterwards the
  node and every one of its descendants has generate index 0, a greater version, hence
  another identity, an empty cache bound to the new identity, and a store, if it has one,
  that holds nothing under the identity its cache was bound to; that is the identity the
  node had before the reset only when the cache was bound to it.\<close>

lemma reset_reaches_descendants:
  assumes acyclic: "\<forall>n c. c \<in> set (children (nodes st n)) \<longrightarrow> rank c < rank n"
    and fuel: "rank self < fuel"
  shows "\<exists>st' ds. reset fuel st self True = Inr st'
       \<and> descendants fuel (nodes st) self = Inr ds
       \<and> (\<forall>d\<in>set (self # ds).
             generate_index (nodes st' d) = 0
           \<and> version st d < version st' d
           \<and> op_id st' d \<noteq> op_id st d
           \<and> entries (delayed_outputs (nodes st' d)) = []
           \<and> cache_len (delayed_outputs (nodes st' d)) = 0
           \<and> node_id (delayed_outputs (nodes st' d)) = op_id st' d
           \<and> (\<forall>s. store (delayed_outputs (nodes st d)) = Some s \<longrightarrow>
                  (\<forall>k\<in>set (stores st' s). fst k \<noteq> node_id (delayed_outputs (nodes st d))))
           \<and> (node_id (delayed_outputs (nodes st d)) = op_id st d \<longrightarrow>
                (\<forall>s. store (delayed_outputs (nodes st d)) = Some s \<longrightarrow>
                   (\<forall>k\<in>set (stores st' s). fst k \<noteq> op_id st d))))"
proof -
  from reset_total[OF acyclic fuel] obtain st' where r: "reset fuel st self True = Inr st'" by blast
  from descendants_total[OF acyclic fuel] obtain ds where ds: "descendants fuel (nodes st) self = Inr ds"
    by blast
  from reset_frame_main[OF r] have rel: "reset_frame st st'" by simp
  have "\<forall>d\<in>set (self # ds).
             generate_index (nodes st' d) = 0
           \<and> version st d < version st' d
           \<and> op_id st' d \<noteq> op_id st d
           \<and> entries (delayed_outputs (nodes st' d)) = []
           \<and> cache_len (delayed_outputs (nodes st' d)) = 0
           \<and> node_id (delayed_outputs (nodes st' d)) = op_id st' d
           \<and> (\<forall>s. store (delayed_outputs (nodes st d)) = Some s \<longrightarrow>
                  (\<forall>k\<in>set (stores st' s). fst k \<noteq> node_id (delayed_outputs (nodes st d))))
           \<and> (node_id (delayed_outputs (nodes st d)) = op_id st d \<longrightarrow>
                (\<forall>s. store (delayed_outputs (nodes st d)) = Some s \<longrightarrow>
                   (\<forall>k\<in>set (stores st' s). fst k \<noteq> op_id st d)))"
  proof
    fix d assume "d \<in> set (self # ds)"
    then have "(self, d) \<in> (child_rel (nodes st))\<^sup>*"
      using descendants_sound[OF ds] by (auto intro: trancl_into_rtrancl)
    from reset_reach[OF r this] have lt: "num_resets (nodes st d) < num_resets (nodes st' d)" .
    with rel have p: "generate_index (nodes st' d) = 0"
      "entries (delayed_outputs (nodes st' d)) = []"
      "node_id (delayed_outputs (nodes st' d)) = op_id st' d"
      "\<forall>s. store (delayed_outputs (nodes st d)) = Some s \<longrightarrow>
                  (\<forall>k\<in>set (stores st' s). fst k \<noteq> node_id (delayed_outputs (nodes st d)))"
      by (simp_all add: reset_frame_def)
    from lt have v: "version st d < version st' d" by (simp add: version_def)
    then have "op_id st' d \<noteq> op_id st d" by (simp add: op_id_def make_key_id_def)
    with p v show "generate_index (nodes st' d) = 0
           \<and> version st d < version st' d
           \<and> op_id st' d \<noteq> op_id st d
           \<and> entries (delayed_outputs (nodes st' d)) = []
           \<and> cache_len (delayed_outputs (nodes st' d)) = 0
           \<and> node_id (delayed_outputs (nodes st' d)) = op_id st' d
           \<and> (\<forall>s. store (delayed_outputs (nodes st d)) = Some s \<longrightarrow>
                  (\<forall>k\<in>set (stores st' s). fst k \<noteq> node_id (delayed_outputs (nodes st d))))
           \<and> (node_id (delayed_outputs (nodes st d)) = op_id st d \<longrightarrow>
                (\<forall>s. store (delayed_outputs (nodes st d)) = Some s \<longrightarrow>
                   (\<forall>k\<in>set (stores st' s). fst k \<noteq> op_id st d)))"
      by (fastforce simp: cache_len_def)
  qed
  with r ds show ?thesis by blast
qed

text \<open>Claim C3 fails on a node that \<^verbatim>\<open>Graph.add_node\<close> has renamed. The cache of the renamed
  node is still bound to the identity with the first name, while the node's identity, under
  which its chunks are keyed and written to the store, has the new name. After
  \<open>generate(2)\<close> on the node the store holds the chunk under the node's identity;
  \<open>reset(propagate=True)\<close> then sets the generate index to 0, increments the version and
  empties the cache, but purges the store of the identity the cache was bound to, and the
  entry under the identity the node had before the reset is still in the store.\<close>

theorem reset_after_rename_keeps_store_entries:
  "name (nodes renamed_state 0) = ''N_old''
   \<and> gnodes (tasks renamed_state 0) = [(''N'', 1), (''N_old'', 0)]
   \<and> node_id (delayed_outputs (nodes renamed_state 0)) = (''task'', ''N'', 0)
   \<and> store (delayed_outputs (nodes renamed_state 0)) = Some 0
   \<and> (case generate 2 1 renamed_state 0 2 None None of
        Some (Inr (d, st1)) \<Rightarrow>
          op_id st1 0 = (''task'', ''N_old'', 0)
        \<and> stores st1 0 = [((''task'', ''N_old'', 0), \<lparr>start = 0, stop = 2\<rparr>)]
        \<and> (case reset 1 st1 0 True of
             Inr st2 \<Rightarrow>
               generate_index (nodes st2 0) = 0
             \<and> version st2 0 = 1
             \<and> entries (delayed_outputs (nodes st2 0)) = []
             \<and> stores st2 0 = [(op_id st1 0, \<lparr>start = 0, stop = 2\<rparr>)]
           | Inl e \<Rightarrow> False)
      | _ \<Rightarrow> False)"
  by code_simp

subsection \<open>The shape contract\<close>












lemma create_input_dict_n:
  assumes "create_input_dict g st self sl = Inr (inp, st1)"
  shows "fst (snd inp) = stop sl - start sl \<and> fst (snd (snd inp)) = start sl"
  using assms
  by (auto simp: create_input_dict_def Let_def split: sum.splits prod.splits opkind.splits)



text \<open>A zero-dimensional array is outside that statement: \<^verbatim>\<open>summary_operation\<close> and
  \<^verbatim>\<open>simulator_operation\<close> read \<^verbatim>\<open>data.shape[0]\<close> before they compare, which raises an IndexError
  on the empty shape, where \<^verbatim>\<open>discrepancy_operation\<close>, which compares the whole shape, raises
  its ValueError.\<close>

lemma zero_dim_output_index_error:
  "summary_operation (\<lambda>data. Array \<lparr>shape = [], flat = [Num 0]\<rparr>) data n
     = Inl (IndexError ''tuple index out of range'')
   \<and> simulator_operation (\<lambda>data n_sim prng. Array \<lparr>shape = [], flat = [Num 0]\<rparr>) data n prng
     = Inl (IndexError ''tuple index out of range'')
   \<and> discrepancy_operation (\<lambda>data obs. Array \<lparr>shape = [], flat = [Num 0]\<rparr>) data obs n
     = Inl (ValueError ''Discrepancy operation output format incorrect.'')"
  by (simp add: summary_operation_def simulator_operation_def discrepancy_operation_def)


subsection \<open>The example graphs\<close>

lemma returns_sumE:
  assumes "case x of Inl e \<Rightarrow> False | Inr (d, s) \<Rightarrow> P d s"
  obtains d s where "x = Inr (d, s)" "P d s"
  using assms by (cases x) auto

lemma returns_stateE:
  assumes "case x of Inl e \<Rightarrow> False | Inr s \<Rightarrow> P s"
  obtains s where "x = Inr s" "P s"
  using assms by (cases x) auto

lemma returns_optionE:
  assumes "case x of None \<Rightarrow> False | Some (Inl e) \<Rightarrow> False | Some (Inr r) \<Rightarrow> P r"
  obtains r where "x = Some (Inr r)" "P r"
  using assms by (cases x) (auto split: sum.splits)

lemma constant_state_ok:
  "\<forall>m. covers (chunk_slices (delayed_outputs (nodes constant_state m))) 0
          (cache_len (delayed_outputs (nodes constant_state m)))"
  by (simp add: constant_state_def chunk_slices_def cache_len_def)

lemma family_state_ok:
  "\<forall>m. covers (chunk_slices (delayed_outputs (nodes family_state m))) 0
          (cache_len (delayed_outputs (nodes family_state m)))"
  "\<forall>m. generate_index (nodes family_state m) \<le> cache_len (delayed_outputs (nodes family_state m))"
  by (simp_all add: family_state_def chunk_slices_def cache_len_def)

theorem generate_keeps_cache_contiguous_witness:
  "(case generate_calls 4 2 family_state [(2, 3, Some 2, None), (0, 1, None, None), (2, 2, None, None)] of
      Some (Inr st') \<Rightarrow>
        chunk_slices (delayed_outputs (nodes st' 2))
          = [\<lparr>start = 0, stop = 2\<rparr>, \<lparr>start = 2, stop = 3\<rparr>, \<lparr>start = 3, stop = 5\<rparr>]
      \<and> generate_index (nodes st' 2) = 5
      \<and> chunk_slices (delayed_outputs (nodes st' 0))
          = [\<lparr>start = 0, stop = 2\<rparr>, \<lparr>start = 2, stop = 3\<rparr>, \<lparr>start = 3, stop = 5\<rparr>]
      \<and> generate_index (nodes st' 0) = 1
      \<and> cache_len (delayed_outputs (nodes st' 0)) = 5
      \<and> (\<Union>s\<in>set (chunk_slices (delayed_outputs (nodes st' 0))). {start s..<stop s}) = {0..<5}
    | _ \<Rightarrow> False)"
proof -
  let ?calls = "[(2::nat, 3::int, Some (2::int), None :: (string \<times> pydata) list option),
                 (0, 1, None, None), (2, 2, None, None)]"
  have "(case generate_calls 4 2 family_state ?calls of
      Some (Inr st') \<Rightarrow>
        chunk_slices (delayed_outputs (nodes st' 2))
          = [\<lparr>start = 0, stop = 2\<rparr>, \<lparr>start = 2, stop = 3\<rparr>, \<lparr>start = 3, stop = 5\<rparr>]
      \<and> generate_index (nodes st' 2) = 5
      \<and> chunk_slices (delayed_outputs (nodes st' 0))
          = [\<lparr>start = 0, stop = 2\<rparr>, \<lparr>start = 2, stop = 3\<rparr>, \<lparr>start = 3, stop = 5\<rparr>]
      \<and> generate_index (nodes st' 0) = 1
      \<and> cache_len (delayed_outputs (nodes st' 0)) = 5
    | _ \<Rightarrow> False)"
    by code_simp
  then obtain st' where
    run: "generate_calls 4 2 family_state ?calls = Some (Inr st')"
    and p: "chunk_slices (delayed_outputs (nodes st' 2))
          = [\<lparr>start = 0, stop = 2\<rparr>, \<lparr>start = 2, stop = 3\<rparr>, \<lparr>start = 3, stop = 5\<rparr>]
      \<and> generate_index (nodes st' 2) = 5
      \<and> chunk_slices (delayed_outputs (nodes st' 0))
          = [\<lparr>start = 0, stop = 2\<rparr>, \<lparr>start = 2, stop = 3\<rparr>, \<lparr>start = 3, stop = 5\<rparr>]
      \<and> generate_index (nodes st' 0) = 1
      \<and> cache_len (delayed_outputs (nodes st' 0)) = 5"
    by (rule returns_optionE)
  have sizes: "\<forall>(self, n, batch_size, with_values)\<in>set ?calls.
                  nat n < 4 \<and> (\<forall>b. batch_size = Some b \<longrightarrow> 0 \<le> b)"
    by simp
  from generate_keeps_cache_contiguous[OF family_state_ok sizes, of 2] run
  have "(\<Union>s\<in>set (chunk_slices (delayed_outputs (nodes st' 0))). {start s..<stop s})
          = {0..<cache_len (delayed_outputs (nodes st' 0))}"
    by blast
  with run p show ?thesis by (simp del: generate_calls.simps)
qed

theorem get_slice_idempotent_witness:
  "(case get_slice 1 constant_state 0 \<lparr>start = 0, stop = 3\<rparr> None of
      Inr (d, st') \<Rightarrow>
        chunk_slices (delayed_outputs (nodes st' 0)) = [\<lparr>start = 0, stop = 3\<rparr>]
      \<and> get_slice 1 st' 0 \<lparr>start = 0, stop = 3\<rparr> None = Inr (d, st')
    | Inl e \<Rightarrow> False)"
proof -
  have "(case get_slice 1 constant_state 0 \<lparr>start = 0, stop = 3\<rparr> None of
      Inr (d, st') \<Rightarrow> chunk_slices (delayed_outputs (nodes st' 0)) = [\<lparr>start = 0, stop = 3\<rparr>]
    | Inl e \<Rightarrow> False)"
    by code_simp
  then obtain d st' where
    g: "get_slice 1 constant_state 0 \<lparr>start = 0, stop = 3\<rparr> None = Inr (d, st')"
    and cs: "chunk_slices (delayed_outputs (nodes st' 0)) = [\<lparr>start = 0, stop = 3\<rparr>]"
    by (rule returns_sumE)
  from get_slice_idempotent[OF g, of None] g cs show ?thesis by (simp del: get_slice.simps)
qed

theorem get_slice_keeps_counters_witness:
  "(case get_slice 1 constant_state 0 \<lparr>start = 0, stop = 3\<rparr> None of
      Inr (d, st') \<Rightarrow>
        cache_len (delayed_outputs (nodes st' 0)) = 3
      \<and> generate_index (nodes st' 0) = 0
      \<and> version st' 0 = 0
      \<and> (case generate 2 1 st' 0 2 None None of
            Some (Inr (d2, st2)) \<Rightarrow> generate_index (nodes st2 0) = 2 \<and> version st2 0 = 0
          | _ \<Rightarrow> False)
    | Inl e \<Rightarrow> False)"
proof -
  have "(case get_slice 1 constant_state 0 \<lparr>start = 0, stop = 3\<rparr> None of
      Inr (d, st') \<Rightarrow>
        cache_len (delayed_outputs (nodes st' 0)) = 3
      \<and> (case generate 2 1 st' 0 2 None None of Some (Inr (d2, st2)) \<Rightarrow> True | _ \<Rightarrow> False)
    | Inl e \<Rightarrow> False)"
    by code_simp
  then obtain d st' where
    g: "get_slice 1 constant_state 0 \<lparr>start = 0, stop = 3\<rparr> None = Inr (d, st')"
    and len: "cache_len (delayed_outputs (nodes st' 0)) = 3"
    and inner: "(case generate 2 1 st' 0 2 None None of
                   Some (Inr (d2, st2)) \<Rightarrow> True | _ \<Rightarrow> False)"
    by (rule returns_sumE) blast
  from inner obtain r where "generate 2 1 st' 0 2 None None = Some (Inr r)"
    by (rule returns_optionE)
  then obtain d2 st2 where gen: "generate 2 1 st' 0 2 None None = Some (Inr (d2, st2))"
    by (cases r) simp
  have z: "generate_index (nodes constant_state 0) = 0" "version constant_state 0 = 0"
    by (simp_all add: constant_state_def version_def)
  from get_slice_keeps_counters[OF g] gen z
  have "generate_index (nodes st' 0) = 0 \<and> version st' 0 = 0
      \<and> generate_index (nodes st2 0) = 2 \<and> version st2 0 = 0"
    by (auto simp del: get_slice.simps)
  with g len gen show ?thesis by (simp del: get_slice.simps)
qed

lemma reset_reaches_descendants_example:
  "(case reset 2 chain_state 0 True of
      Inr st' \<Rightarrow>
        descendants 2 (nodes chain_state) 0 = Inr [1]
      \<and> generate_index (nodes st' 0) = 0 \<and> generate_index (nodes st' 1) = 0
      \<and> version st' 0 = 1 \<and> version st' 1 = 1
      \<and> entries (delayed_outputs (nodes st' 0)) = [] \<and> entries (delayed_outputs (nodes st' 1)) = []
      \<and> stores chain_state 0 = [(make_key_id ''task'' ''s'' 0, \<lparr>start = 0, stop = 2\<rparr>)]
      \<and> stores st' 0 = []
    | Inl e \<Rightarrow> False)"
proof -
  have a: "\<forall>n c. c \<in> set (children (nodes chain_state n))
             \<longrightarrow> (if c = 0 then 1 else 0::nat) < (if n = 0 then 1 else 0::nat)"
    by (simp add: chain_state_def)
  have f: "(if (0::nat) = 0 then 1 else 0::nat) < 2" by simp
  from reset_reaches_descendants[of chain_state "\<lambda>n. if n = 0 then 1 else 0" 0 2, OF a f]
  obtain st' ds where r: "reset 2 chain_state 0 True = Inr st'"
    and ds: "descendants 2 (nodes chain_state) 0 = Inr ds"
    and p: "\<forall>d\<in>set (0 # ds). generate_index (nodes st' d) = 0
           \<and> entries (delayed_outputs (nodes st' d)) = []"
    by blast
  have e: "(case reset 2 chain_state 0 True of
      Inr st' \<Rightarrow>
        descendants 2 (nodes chain_state) 0 = Inr [1]
      \<and> version st' 0 = 1 \<and> version st' 1 = 1
      \<and> stores chain_state 0 = [(make_key_id ''task'' ''s'' 0, \<lparr>start = 0, stop = 2\<rparr>)]
      \<and> stores st' 0 = []
    | Inl e \<Rightarrow> False)"
    by code_simp
  with r ds have "ds = [1]" by (simp del: reset.simps descendants.simps)
  with p e r show ?thesis by (simp del: reset.simps descendants.simps)
qed


subsection \<open>Overrides\<close>















subsection \<open>The constant node\<close>

text \<open>Claim C5, as stated, fails. For \<open>Constant('c', 3)\<close>, realising what
  \<open>acquire(5, batch_size=2)\<close> returns gives an array of three rows, not of five; and the
  constant is not broadcast to the batch size: realising the chunk of the range from 0 to 2
  gives the one-row array of the value, not two rows.\<close>

theorem constant_acquire_not_five_rows:
  "(case acquire 4 1 constant_state 0 5 0 (Some 2) None of
      Some (Inr (d, st')) \<Rightarrow>
        compute no_store d = Inr \<lparr>shape = [3, 1], flat = [Num 3, Num 3, Num 3]\<rparr>
      \<and> compute no_store d \<noteq> Inr \<lparr>shape = [5, 1], flat = [Num 3, Num 3, Num 3, Num 3, Num 3]\<rparr>
      \<and> (case entries (delayed_outputs (nodes st' 0)) of
            (((k, sl), c), stored) # es \<Rightarrow>
              sl = \<lparr>start = 0, stop = 2\<rparr>
            \<and> compute no_store c = Inr \<lparr>shape = [1, 1], flat = [Num 3]\<rparr>
            \<and> compute no_store c \<noteq> Inr \<lparr>shape = [2, 1], flat = [Num 3, Num 3]\<rparr>
          | [] \<Rightarrow> False)
    | _ \<Rightarrow> False)"
  by code_simp

text \<open>Claim C5, as amended. For \<open>Constant('c', 3)\<close>, \<open>acquire(5, batch_size=2)\<close> returns, sets the
  generate index to 5 and extends the empty cache by the three chunks of the ranges from 0
  to 2, from 2 to 4 and from 4 to 5, in that order. The constant is not broadcast to the
  batch size: each chunk is one application of the constant's operation, asked for 2, 2 and
  1 samples, and realising it gives the one-row array of the value.\<close>

theorem constant_acquire_chunks:
  "operation (nodes constant_state 0) = Constant \<lparr>shape = [1, 1], flat = [Num 3]\<rparr>
   \<and> entries (delayed_outputs (nodes constant_state 0)) = []
   \<and> (case acquire 4 1 constant_state 0 5 0 (Some 2) None of
        Some (Inr (d, st')) \<Rightarrow>
          generate_index (nodes st' 0) = 5
        \<and> chunk_slices (delayed_outputs (nodes st' 0))
            = [\<lparr>start = 0, stop = 2\<rparr>, \<lparr>start = 2, stop = 4\<rparr>, \<lparr>start = 4, stop = 5\<rparr>]
        \<and> map (\<lambda>(out, stored). compute no_store (snd out)) (entries (delayed_outputs (nodes st' 0)))
            = [Inr \<lparr>shape = [1, 1], flat = [Num 3]\<rparr>, Inr \<lparr>shape = [1, 1], flat = [Num 3]\<rparr>,
               Inr \<lparr>shape = [1, 1], flat = [Num 3]\<rparr>]
        \<and> map (\<lambda>(out, stored). invocations (snd out)) (entries (delayed_outputs (nodes st' 0)))
            = [[(Constant \<lparr>shape = [1, 1], flat = [Num 3]\<rparr>, 2, 0)],
               [(Constant \<lparr>shape = [1, 1], flat = [Num 3]\<rparr>, 2, 2)],
               [(Constant \<lparr>shape = [1, 1], flat = [Num 3]\<rparr>, 1, 4)]]
      | _ \<Rightarrow> False)"
  by (simp add: acquire_def generate_def constant_state_def eval_nat_numeral Let_def
      normalize_data_dict_def batch_values_def cache_len_def op_getitem_def cache_getitem_def
      get_output_datalist_def create_input_dict_def constant_value_def normalize_data_def
      atleast_1d_def create_delayed_output_def cache_append_def make_key_def get_key_slice_def
      slen_def op_id_def version_def make_key_id_def chunk_slices_def slice_intersect_def
      as_pydata_def run_operation_def vstack_def atleast_2d_def)

subsection \<open>Reading literal chunks back\<close>






lemma slice_values_lookup:
  "slice_values kvs sl = Inr ws \<Longrightarrow> map_of kvs key = Some W \<Longrightarrow>
     \<exists>w. getitem W sl = Inr w \<and> map_of ws key = Some (PyArray w)"
  by (induction kvs sl arbitrary: ws rule: slice_values.induct)
     (auto split: sum.splits if_splits)


































end
